theory Spec2Isabelle
  imports Main "HOL-Library.AList" "HOL-Library.Monad_Syntax"
begin

section \<open>The arm controller of keyboard\_arm\_control.py\<close>

text \<open>
  The program keeps its state in module-level globals (\<^verbatim>\<open>servos\<close>,
  \<^verbatim>\<open>current_angles\<close>, \<^verbatim>\<open>is_recording\<close>, \<^verbatim>\<open>recorded_path\<close>,
  \<^verbatim>\<open>stop_event\<close>) and acts on the world by \<^verbatim>\<open>servos[name].write(angle)\<close>,
  by \<^verbatim>\<open>print\<close> and by starting threads. The model passes one record of the globals
  through every function and logs the three kinds of effect in it.

  A Python \<^verbatim>\<open>dict\<close> keeps insertion order, and assigning to an existing key keeps the
  key's position: this is an association list with \<open>AList.update\<close>. A lookup
  \<^verbatim>\<open>d[k]\<close> of a missing key raises \<^verbatim>\<open>KeyError\<close>; it is \<open>map_of d k\<close>, and a
  function that can raise returns an \<open>option\<close>, \<open>None\<close> being the uncaught
  \<^verbatim>\<open>KeyError\<close>. Python integers are unbounded: \<open>int\<close>.
\<close>

subsection \<open>Configuration\<close>

type_synonym angles = "(string \<times> int) list"

definition SERVO_PINS :: "(string \<times> nat) list" where
  "SERVO_PINS =
    [(''base_1'', 10), (''base_2'', 9), (''shoulder'', 11), (''elbow'', 6),
     (''arm_bend'', 5), (''gripper_rotate'', 3), (''gripper_grasp'', 4)]"

definition NEUTRAL_ANGLES :: angles where
  "NEUTRAL_ANGLES =
    [(''base_1'', 180), (''base_2'', 0), (''shoulder'', 180), (''elbow'', 100),
     (''arm_bend'', 75), (''gripper_rotate'', 90), (''gripper_grasp'', 80)]"

definition INCREMENT :: int where
  "INCREMENT = 5"

subsection \<open>State and effects\<close>

text \<open>Every \<^verbatim>\<open>print\<close> of the program, without its layout.\<close>

datatype message =
    Attempting_to_connect
  | Connection_successful
  | Configured_servo string nat
  | Moving_to_neutral
  | Initial_homing_complete
  | Could_not_connect
  | Servo_not_found string
  | Cannot_return_while_recording
  | Returning_to_neutral
  | Return_interrupted
  | Returned_to_neutral
  | Nothing_recorded
  | Starting_playback
  | Playback_interrupted
  | Playback_finished
  | Recording_started
  | Already_recording
  | Stop_recording_before_playback
  | Recording_stopped nat
  | Not_recording
  | Instructions
  | Status "int list" "nat option"

text \<open>
  A thread started by \<^verbatim>\<open>process_command\<close>, with the local variables it holds between
  two iterations of its loop: the list iterator's index in \<^verbatim>\<open>playback_path\<close>,
  \<^verbatim>\<open>temp_angles\<close> in \<^verbatim>\<open>return_to_neutral_slowly\<close>.
\<close>

datatype playback_pc = Playback_entry | Playback_loop nat

datatype home_pc = Home_entry | Home_loop angles

datatype thread = Playback playback_pc | Home home_pc

record state =
  servos :: "(string \<times> nat) list"
  current_angles :: angles
  is_recording :: bool
  recorded_path :: "angles list"
  stop_event :: bool
  hw_writes :: "(string \<times> int) list"
  printed :: "message list"
  threads :: "thread list"

text \<open>What a Python call hands back to its caller.\<close>

datatype retval = PyNone | PyInt int

definition globals :: state where
  "globals =
    \<lparr>servos = [], current_angles = NEUTRAL_ANGLES, is_recording = False,
     recorded_path = [], stop_event = False, hw_writes = [], printed = [], threads = []\<rparr>"

definition say :: "message \<Rightarrow> state \<Rightarrow> state" where
  "say m s = s\<lparr>printed := printed s @ [m]\<rparr>"

definition servo_write :: "string \<Rightarrow> int \<Rightarrow> state \<Rightarrow> state" where
  "servo_write name angle s = s\<lparr>hw_writes := hw_writes s @ [(name, angle)]\<rparr>"

subsection \<open>Core functions\<close>

definition print_instructions :: "state \<Rightarrow> state" where
  "print_instructions s = say Instructions s"

text \<open>
  \<^verbatim>\<open>setup_board\<close>: the first argument says whether pyfirmata reaches the board. With
  the board reached, every pin of \<^verbatim>\<open>SERVO_PINS\<close> is configured and every neutral angle
  written; otherwise the \<^verbatim>\<open>except\<close> branch reports and returns \<^verbatim>\<open>False\<close>.
\<close>

definition setup_board :: "bool \<Rightarrow> state \<Rightarrow> bool \<times> state" where
  "setup_board link s =
    (let s = say Attempting_to_connect s in
     if link then
       let s = say Connection_successful s;
           s = fold (\<lambda>(name, pin) s.
                 say (Configured_servo name pin) (s\<lparr>servos := AList.update name pin (servos s)\<rparr>))
                 SERVO_PINS s;
           s = say Moving_to_neutral s;
           s = fold (\<lambda>(name, angle) s. servo_write name angle s) NEUTRAL_ANGLES s;
           s = say Initial_homing_complete s;
           s = print_instructions s
       in (True, s)
     else (False, say Could_not_connect s))"

text \<open>
  \<^verbatim>\<open>move_servo\<close> has no \<^verbatim>\<open>return\<close> statement: the call evaluates to
  \<^verbatim>\<open>None\<close>, the first component of the result.
\<close>

definition move_servo :: "string \<Rightarrow> int \<Rightarrow> state \<Rightarrow> retval \<times> state" where
  "move_servo name angle s =
    (let angle = max 0 (min 180 angle) in
     if name \<in> set (map fst (servos s)) then
       (PyNone, servo_write name angle (s\<lparr>current_angles := AList.update name angle (current_angles s)\<rparr>))
     else (PyNone, say (Servo_not_found name) s))"

definition record_current_state :: "state \<Rightarrow> state" where
  "record_current_state s =
    (if is_recording s then s\<lparr>recorded_path := recorded_path s @ [current_angles s]\<rparr> else s)"

definition print_status :: "state \<Rightarrow> state option" where
  "print_status s = do {
     b1 \<leftarrow> map_of (current_angles s) ''base_1'';
     b2 \<leftarrow> map_of (current_angles s) ''base_2'';
     sh \<leftarrow> map_of (current_angles s) ''shoulder'';
     el \<leftarrow> map_of (current_angles s) ''elbow'';
     ab \<leftarrow> map_of (current_angles s) ''arm_bend'';
     gr \<leftarrow> map_of (current_angles s) ''gripper_rotate'';
     gg \<leftarrow> map_of (current_angles s) ''gripper_grasp'';
     Some (say (Status [b1, b2, sh, el, ab, gr, gg]
                 (if is_recording s then Some (length (recorded_path s)) else None)) s)
   }"

subsection \<open>Return to neutral\<close>

text \<open>
  The \<^verbatim>\<open>while\<close> condition: \<^verbatim>\<open>any(int(temp_angles[name]) != NEUTRAL_ANGLES[name] for
  name in SERVO_PINS)\<close>, which stops at the first joint away from neutral.
\<close>

fun away_from_neutral :: "string list \<Rightarrow> angles \<Rightarrow> bool option" where
  "away_from_neutral [] temp_angles = Some False"
| "away_from_neutral (name # names) temp_angles = do {
     current \<leftarrow> map_of temp_angles name;
     neutral \<leftarrow> map_of NEUTRAL_ANGLES name;
     if current \<noteq> neutral then Some True else away_from_neutral names temp_angles
   }"

text \<open>The \<^verbatim>\<open>for name in SERVO_PINS.keys()\<close> loop of one tick.\<close>

fun neutral_tick :: "string list \<Rightarrow> angles \<Rightarrow> state \<Rightarrow> (angles \<times> state) option" where
  "neutral_tick [] temp_angles s = Some (temp_angles, s)"
| "neutral_tick (name # names) temp_angles s = do {
     current \<leftarrow> map_of temp_angles name;
     neutral \<leftarrow> map_of NEUTRAL_ANGLES name;
     if current \<noteq> neutral then
       let new_angle = (if current < neutral then current + 1 else current - 1) in
       neutral_tick names (AList.update name new_angle temp_angles)
         (snd (move_servo name new_angle s))
     else neutral_tick names temp_angles s
   }"

text \<open>The end of \<^verbatim>\<open>return_to_neutral_slowly\<close>, after the loop.\<close>

definition return_to_neutral_slowly_finish :: "state \<Rightarrow> state option" where
  "return_to_neutral_slowly_finish s =
    print_status (if \<not> stop_event s then say Returned_to_neutral s else s)"

text \<open>
  One scheduling quantum of a thread running \<^verbatim>\<open>return_to_neutral_slowly\<close>: the entry
  of the function up to the loop, or one iteration of the \<^verbatim>\<open>while\<close> loop up to its
  \<^verbatim>\<open>time.sleep\<close>. The result is the thread's next local state (\<open>None\<close> when the
  function has returned) and the new globals.
\<close>

fun return_to_neutral_slowly :: "home_pc \<Rightarrow> state \<Rightarrow> (home_pc option \<times> state) option" where
  "return_to_neutral_slowly Home_entry s =
    (if is_recording s then Some (None, say Cannot_return_while_recording s)
     else Some (Some (Home_loop (current_angles s)), say Returning_to_neutral s))"
| "return_to_neutral_slowly (Home_loop temp_angles) s = do {
     away \<leftarrow> away_from_neutral (map fst SERVO_PINS) temp_angles;
     if away then
       if stop_event s then do {
         s' \<leftarrow> return_to_neutral_slowly_finish (say Return_interrupted s);
         Some (None, s')
       } else do {
         (temp_angles', s') \<leftarrow> neutral_tick (map fst SERVO_PINS) temp_angles s;
         Some (Some (Home_loop temp_angles'), s')
       }
     else do {
       s' \<leftarrow> return_to_neutral_slowly_finish s;
       Some (None, s')
     }
   }"

subsection \<open>Playback\<close>

text \<open>The inner loop \<^verbatim>\<open>for name, angle in angles_state.items()\<close>.\<close>

fun playback_write :: "angles \<Rightarrow> state \<Rightarrow> state option" where
  "playback_write [] s = Some s"
| "playback_write ((name, angle) # items) s =
    (if name \<in> set (map fst (servos s)) then
       playback_write items
         ((servo_write name angle s)\<lparr>current_angles := AList.update name angle (current_angles s)\<rparr>)
     else None)"

definition playback_path_finish :: "state \<Rightarrow> state option" where
  "playback_path_finish s = print_status (say Playback_finished s)"

text \<open>
  One scheduling quantum of a thread running \<^verbatim>\<open>playback_path\<close>: the entry of the
  function up to the loop, or one iteration of the \<^verbatim>\<open>for\<close> loop up to its
  \<^verbatim>\<open>time.sleep\<close>. The list iterator reads \<^verbatim>\<open>recorded_path\<close> (the global, as it is
  now) at its index and ends the loop when the index is past the end; the stop event is
  looked at after the iterator has produced an element.
\<close>

fun playback_path :: "playback_pc \<Rightarrow> state \<Rightarrow> (playback_pc option \<times> state) option" where
  "playback_path Playback_entry s =
    (if recorded_path s = [] then Some (None, say Nothing_recorded s)
     else Some (Some (Playback_loop 0), say Starting_playback s))"
| "playback_path (Playback_loop i) s =
    (if i < length (recorded_path s) then
       if stop_event s then do {
         s' \<leftarrow> playback_path_finish (say Playback_interrupted s);
         Some (None, s')
       } else do {
         s' \<leftarrow> playback_write (recorded_path s ! i) s;
         Some (Some (Playback_loop (i + 1)), s')
       }
     else do {
       s' \<leftarrow> playback_path_finish s;
       Some (None, s')
     })"

subsection \<open>Commands\<close>

text \<open>\<^verbatim>\<open>move_servo(name, current_angles[name] + delta)\<close>.\<close>

definition jog :: "string \<Rightarrow> int \<Rightarrow> state \<Rightarrow> state option" where
  "jog name delta s = do {
     current \<leftarrow> map_of (current_angles s) name;
     Some (snd (move_servo name (current + delta) s))
   }"

text \<open>The last statement of \<^verbatim>\<open>process_command\<close>, reached by every mapped key.\<close>

definition record_if_movement :: "string \<Rightarrow> state \<Rightarrow> state" where
  "record_if_movement command s =
    (if command \<notin> set [''r'', ''p'', ''o'', ''h'', ''help''] then record_current_state s else s)"

definition process_command :: "string \<Rightarrow> state \<Rightarrow> state option" where
  "process_command command s =
    (if command = ''left'' then do {
       s \<leftarrow> jog ''base_1'' INCREMENT s;
       s \<leftarrow> jog ''base_2'' (- INCREMENT) s;
       Some (record_if_movement command s) }
     else if command = ''right'' then do {
       s \<leftarrow> jog ''base_1'' (- INCREMENT) s;
       s \<leftarrow> jog ''base_2'' INCREMENT s;
       Some (record_if_movement command s) }
     else if command = ''down'' then
       map_option (record_if_movement command) (jog ''shoulder'' INCREMENT s)
     else if command = ''up'' then
       map_option (record_if_movement command) (jog ''shoulder'' (- INCREMENT) s)
     else if command = ''w'' then
       map_option (record_if_movement command) (jog ''elbow'' INCREMENT s)
     else if command = ''s'' then
       map_option (record_if_movement command) (jog ''elbow'' (- INCREMENT) s)
     else if command = ''t'' then
       map_option (record_if_movement command) (jog ''arm_bend'' INCREMENT s)
     else if command = ''y'' then
       map_option (record_if_movement command) (jog ''arm_bend'' (- INCREMENT) s)
     else if command = ''a'' then
       map_option (record_if_movement command) (jog ''gripper_rotate'' INCREMENT s)
     else if command = ''d'' then
       map_option (record_if_movement command) (jog ''gripper_rotate'' (- INCREMENT) s)
     else if command = ''1'' then
       map_option (record_if_movement command) (jog ''gripper_grasp'' INCREMENT s)
     else if command = ''2'' then
       map_option (record_if_movement command) (jog ''gripper_grasp'' (- INCREMENT) s)
     else if command = ''r'' then
       Some (record_if_movement command
         (if \<not> is_recording s then
            say Recording_started (s\<lparr>is_recording := True, recorded_path := []\<rparr>)
          else say Already_recording s))
     else if command = ''p'' then
       Some (record_if_movement command
         (if is_recording s then say Stop_recording_before_playback s
          else s\<lparr>threads := threads s @ [Playback Playback_entry]\<rparr>))
     else if command = ''o'' then
       Some (record_if_movement command
         (if is_recording s then
            say (Recording_stopped (length (recorded_path s))) (s\<lparr>is_recording := False\<rparr>)
          else say Not_recording s))
     else if command = ''h'' then
       Some (record_if_movement command (s\<lparr>threads := threads s @ [Home Home_entry]\<rparr>))
     else if command = ''help'' then
       Some (record_if_movement command (print_instructions s))
     else Some s)"

subsection \<open>The main loop and the scheduler\<close>

text \<open>
  What can happen next in the running program: the main loop decodes a key and calls
  \<^verbatim>\<open>process_command\<close> and \<^verbatim>\<open>print_status\<close> (only while the stop event is unset,
  the loop's condition); the stop event is set (by the escape key, by Ctrl+C or at the
  end of the main program; the messages of the shutdown are left out); or the scheduler
  lets the \<open>n\<close>-th live thread run one quantum. A thread that has returned leaves the
  list. Threads are interleaved at their \<^verbatim>\<open>time.sleep\<close> calls: a command and a quantum
  run as one step each, in any order.
\<close>

datatype action = Command string | Escape | Run nat

fun thread_quantum :: "thread \<Rightarrow> state \<Rightarrow> (thread option \<times> state) option" where
  "thread_quantum (Playback pc) s = map_option (apfst (map_option Playback)) (playback_path pc s)"
| "thread_quantum (Home pc) s = map_option (apfst (map_option Home)) (return_to_neutral_slowly pc s)"

fun step :: "action \<Rightarrow> state \<Rightarrow> state option" where
  "step (Command command) s =
    (if stop_event s then Some s
     else do { s' \<leftarrow> process_command command s; print_status s' })"
| "step Escape s = Some (s\<lparr>stop_event := True\<rparr>)"
| "step (Run n) s =
    (if n < length (threads s) then do {
       (t', s') \<leftarrow> thread_quantum (threads s ! n) s;
       Some (case t' of
               None \<Rightarrow> s'\<lparr>threads := take n (threads s') @ drop (Suc n) (threads s')\<rparr>
             | Some t \<Rightarrow> s'\<lparr>threads := (threads s')[n := t]\<rparr>)
     } else Some s)"

fun exec :: "action list \<Rightarrow> state \<Rightarrow> state option" where
  "exec [] s = Some s"
| "exec (a # acts) s = do { s' \<leftarrow> step a s; exec acts s' }"

definition initial_state :: state where
  "initial_state = snd (setup_board True globals)"

inductive reachable :: "state \<Rightarrow> bool" where
  start: "reachable initial_state"
| next_state: "reachable s \<Longrightarrow> step a s = Some s' \<Longrightarrow> reachable s'"

subsection \<open>Notions used in the statements\<close>

text \<open>
  The keys of \<^verbatim>\<open>process_command\<close> that move one joint, each with its joint and its
  signed step, as the \<^verbatim>\<open>elif\<close> chain lists them.
\<close>

definition jog_keys :: "(string \<times> string \<times> int) list" where
  "jog_keys =
    [(''down'', ''shoulder'', INCREMENT), (''up'', ''shoulder'', - INCREMENT),
     (''w'', ''elbow'', INCREMENT), (''s'', ''elbow'', - INCREMENT),
     (''t'', ''arm_bend'', INCREMENT), (''y'', ''arm_bend'', - INCREMENT),
     (''a'', ''gripper_rotate'', INCREMENT), (''d'', ''gripper_rotate'', - INCREMENT),
     (''1'', ''gripper_grasp'', INCREMENT), (''2'', ''gripper_grasp'', - INCREMENT)]"

text \<open>The twelve keys of \<^verbatim>\<open>process_command\<close> that move the arm.\<close>

definition movement_keys :: "string list" where
  "movement_keys =
    [''left'', ''right'', ''down'', ''up'', ''w'', ''s'', ''t'', ''y'', ''a'', ''d'', ''1'', ''2'']"

text \<open>
  The range of a joint: \<^verbatim>\<open>move_servo\<close> clamps every joint to the same bounds, 0 and
  180.
\<close>

definition in_range :: "angles \<Rightarrow> bool" where
  "in_range d \<longleftrightarrow> list_all (\<lambda>(name, angle). 0 \<le> angle \<and> angle \<le> 180) d"

definition angles_inv :: "state \<Rightarrow> bool" where
  "angles_inv s \<longleftrightarrow> in_range (current_angles s) \<and> list_all in_range (recorded_path s)"

text \<open>
  The shape of the globals while the main loop runs: the seven servos are configured,
  and every dictionary of angles (the current one, each snapshot, each thread's
  \<^verbatim>\<open>temp_angles\<close>) has the seven joints as its keys, in the order of
  \<^verbatim>\<open>NEUTRAL_ANGLES\<close>.
\<close>

fun thread_ok :: "thread \<Rightarrow> bool" where
  "thread_ok (Home (Home_loop temp_angles)) \<longleftrightarrow> map fst temp_angles = map fst NEUTRAL_ANGLES"
| "thread_ok _ \<longleftrightarrow> True"

definition well_formed :: "state \<Rightarrow> bool" where
  "well_formed s \<longleftrightarrow>
     servos s = SERVO_PINS
   \<and> map fst (current_angles s) = map fst NEUTRAL_ANGLES
   \<and> list_all (\<lambda>snapshot. map fst snapshot = map fst NEUTRAL_ANGLES) (recorded_path s)
   \<and> list_all thread_ok (threads s)"

text \<open>What a movement command leaves as it is.\<close>

definition same_session :: "state \<Rightarrow> state \<Rightarrow> bool" where
  "same_session s s' \<longleftrightarrow>
     is_recording s' = is_recording s \<and> stop_event s' = stop_event s \<and> threads s' = threads s"

text \<open>
  One degree toward the joint's neutral angle, as one tick of the homing loop asks of a
  joint that is not at neutral; a joint at neutral stays.
\<close>

definition one_degree_closer :: "string \<Rightarrow> int \<Rightarrow> int" where
  "one_degree_closer name current =
    (case map_of NEUTRAL_ANGLES name of
       None \<Rightarrow> current
     | Some neutral \<Rightarrow>
         if current < neutral then current + 1
         else if neutral < current then current - 1
         else current)"

definition closer :: "angles \<Rightarrow> angles" where
  "closer d = map (\<lambda>(name, current). (name, one_degree_closer name current)) d"

text \<open>The joints that one tick moves, and the servo writes it issues for them.\<close>

definition away :: "string \<times> int \<Rightarrow> bool" where
  "away = (\<lambda>(name, current).
     case map_of NEUTRAL_ANGLES name of None \<Rightarrow> False | Some neutral \<Rightarrow> current \<noteq> neutral)"

definition tick_writes :: "angles \<Rightarrow> (string \<times> int) list" where
  "tick_writes d = closer (filter away d)"

text \<open>The sum over the joints of the absolute distance from the neutral angle.\<close>

definition distance :: "angles \<Rightarrow> nat" where
  "distance d =
    (\<Sum>(name, current)\<leftarrow>d.
       case map_of NEUTRAL_ANGLES name of None \<Rightarrow> 0 | Some neutral \<Rightarrow> nat \<bar>current - neutral\<bar>)"

text \<open>
  A homing run on its own, between two quanta: the thread is in its loop with
  \<^verbatim>\<open>temp_angles\<close> equal to the arm state, or it has returned with the arm at neutral.
\<close>

definition homing :: "state \<Rightarrow> bool" where
  "homing s \<longleftrightarrow>
     servos s = SERVO_PINS \<and> map fst (current_angles s) = map fst NEUTRAL_ANGLES
   \<and> in_range (current_angles s) \<and> \<not> stop_event s
   \<and> (threads s = [Home (Home_loop (current_angles s))]
      \<or> threads s = [] \<and> current_angles s = NEUTRAL_ANGLES
          \<and> Returned_to_neutral \<in> set (printed s))"

section \<open>Properties\<close>

subsection \<open>The state after a successful \<^verbatim>\<open>setup_board\<close>\<close>

lemmas effect_defs = say_def servo_write_def print_instructions_def

lemma initial_state_eq:
  "initial_state =
    \<lparr>servos = SERVO_PINS, current_angles = NEUTRAL_ANGLES, is_recording = False,
     recorded_path = [], stop_event = False, hw_writes = NEUTRAL_ANGLES,
     printed =
       [Attempting_to_connect, Connection_successful,
        Configured_servo ''base_1'' 10, Configured_servo ''base_2'' 9,
        Configured_servo ''shoulder'' 11, Configured_servo ''elbow'' 6,
        Configured_servo ''arm_bend'' 5, Configured_servo ''gripper_rotate'' 3,
        Configured_servo ''gripper_grasp'' 4, Moving_to_neutral,
        Initial_homing_complete, Instructions],
     threads = []\<rparr>"
  by (simp add: initial_state_def setup_board_def globals_def SERVO_PINS_def NEUTRAL_ANGLES_def
      effect_defs)

lemma joint_names: "map fst SERVO_PINS = map fst NEUTRAL_ANGLES"
  by (simp add: SERVO_PINS_def NEUTRAL_ANGLES_def)

lemma joint_names_distinct: "distinct (map fst NEUTRAL_ANGLES)"
  by (simp add: NEUTRAL_ANGLES_def)

subsection \<open>\<^verbatim>\<open>move_servo\<close>\<close>

text \<open>
  Claim C1, as the code has it. For every configured joint and every requested angle
  (negative ones and ones above 180 too), \<^verbatim>\<open>move_servo\<close> clamps the request into
  \<open>[0, 180]\<close>, the range of every joint, stores the clamped value for the joint in
  \<^verbatim>\<open>current_angles\<close>, writes the clamped value to the joint's servo and changes nothing
  else; the stored value lies within the range. The call returns \<^verbatim>\<open>None\<close>, not the
  clamped value: the applied angle is read back from \<^verbatim>\<open>current_angles\<close>.
\<close>

theorem move_servo_clamps_stores_writes:
  assumes "name \<in> set (map fst (servos s))"
  shows "move_servo name angle s =
      (PyNone,
       s\<lparr>current_angles := AList.update name (max 0 (min 180 angle)) (current_angles s),
         hw_writes := hw_writes s @ [(name, max 0 (min 180 angle))]\<rparr>)
    \<and> map_of (current_angles (snd (move_servo name angle s))) name = Some (max 0 (min 180 angle))
    \<and> 0 \<le> max 0 (min 180 angle) \<and> max 0 (min 180 angle) \<le> 180"
  using assms by (simp add: move_servo_def servo_write_def Let_def update_conv')

theorem move_servo_clamps_stores_writes_witness:
  "''elbow'' \<in> set (map fst (servos initial_state))
   \<and> map_of (current_angles (snd (move_servo ''elbow'' 200 initial_state))) ''elbow'' = Some 180
   \<and> hw_writes (snd (move_servo ''elbow'' 200 initial_state)) = NEUTRAL_ANGLES @ [(''elbow'', 180)]
   \<and> map_of (current_angles (snd (move_servo ''elbow'' (- 7) initial_state))) ''elbow'' = Some 0"
proof -
  have elbow: "''elbow'' \<in> set (map fst (servos initial_state))"
    by (simp add: initial_state_eq SERVO_PINS_def)
  have writes: "hw_writes initial_state = NEUTRAL_ANGLES"
    by (simp add: initial_state_eq)
  show ?thesis
    using elbow writes move_servo_clamps_stores_writes [OF elbow, of 200]
      move_servo_clamps_stores_writes [OF elbow, of "- 7"]
    by (simp add: update_conv')
qed

text \<open>
  The claim as the specification words it also has \<^verbatim>\<open>set_angle\<close> return the clamped
  value. Asked for 200 degrees on the elbow, \<^verbatim>\<open>move_servo\<close> stores and writes 180 and
  returns \<^verbatim>\<open>None\<close>.
\<close>

theorem move_servo_returns_none:
  "''elbow'' \<in> set (map fst (servos initial_state))
   \<and> fst (move_servo ''elbow'' 200 initial_state) = PyNone
   \<and> fst (move_servo ''elbow'' 200 initial_state) \<noteq> PyInt (max 0 (min 180 200))"
  by (simp add: move_servo_def initial_state_eq SERVO_PINS_def)

subsection \<open>Control commands\<close>

text \<open>
  Claim C7. A begin-playback command (\<^verbatim>\<open>'p'\<close>) while a recording session is active is
  answered by the message "Stop recording ('o') before playing back." and nothing else:
  no thread is started, nothing is written to the servos, and the trajectory
  (\<^verbatim>\<open>recorded_path\<close>), the recording flag and the arm state (\<^verbatim>\<open>current_angles\<close>) are
  as they were.
\<close>

theorem playback_rejected_while_recording:
  assumes "is_recording s"
  shows "\<exists>s'. process_command ''p'' s = Some s'
    \<and> printed s' = printed s @ [Stop_recording_before_playback]
    \<and> recorded_path s' = recorded_path s \<and> current_angles s' = current_angles s
    \<and> is_recording s' \<and> threads s' = threads s \<and> hw_writes s' = hw_writes s
    \<and> s' = say Stop_recording_before_playback s"
  using assms by (simp add: process_command_def record_if_movement_def say_def)

lemma start_recording_initial:
  "process_command ''r'' initial_state =
     Some (say Recording_started (initial_state\<lparr>is_recording := True, recorded_path := []\<rparr>))"
  by (simp add: process_command_def record_if_movement_def initial_state_eq)

theorem playback_rejected_while_recording_witness:
  "\<exists>s s'. process_command ''r'' initial_state = Some s \<and> is_recording s
     \<and> process_command ''p'' s = Some s'
     \<and> printed s' = printed s @ [Stop_recording_before_playback]
     \<and> recorded_path s' = [] \<and> current_angles s' = NEUTRAL_ANGLES \<and> threads s' = []"
proof -
  define s where "s = say Recording_started (initial_state\<lparr>is_recording := True, recorded_path := []\<rparr>)"
  have rec: "is_recording s"
    by (simp add: s_def say_def)
  have fields: "recorded_path s = []" "current_angles s = NEUTRAL_ANGLES" "threads s = []"
    by (simp_all add: s_def say_def initial_state_eq)
  from playback_rejected_while_recording [OF rec] fields rec start_recording_initial
  show ?thesis
    unfolding s_def [symmetric] by auto
qed

text \<open>
  Claim C9. Whatever the state, a first \<^verbatim>\<open>'r'\<close> leaves a recording session active, and
  a second \<^verbatim>\<open>'r'\<close> right after it only prints "Already recording.": the trajectory
  after two starts is the trajectory after one. More generally, \<^verbatim>\<open>'r'\<close> during an
  active session keeps the trajectory recorded so far.
\<close>

theorem start_recording_twice:
  "(\<exists>s1 s2. process_command ''r'' s = Some s1 \<and> process_command ''r'' s1 = Some s2
      \<and> recorded_path s2 = recorded_path s1 \<and> is_recording s2
      \<and> s2 = say Already_recording s1)
   \<and> (is_recording s \<longrightarrow>
        (\<exists>s'. process_command ''r'' s = Some s' \<and> recorded_path s' = recorded_path s
           \<and> printed s' = printed s @ [Already_recording] \<and> is_recording s'))"
  by (simp add: process_command_def record_if_movement_def say_def)

theorem start_recording_twice_witness:
  "\<exists>s1 s2. process_command ''r'' initial_state = Some s1 \<and> process_command ''r'' s1 = Some s2
     \<and> is_recording s1 \<and> recorded_path s1 = [] \<and> recorded_path s2 = []
     \<and> printed s2 = printed s1 @ [Already_recording]"
proof -
  from start_recording_twice [of initial_state]
  obtain s1 s2 where run: "process_command ''r'' initial_state = Some s1"
      "process_command ''r'' s1 = Some s2" "recorded_path s2 = recorded_path s1"
      "s2 = say Already_recording s1"
    by blast
  from run(1) have "s1 = say Recording_started (initial_state\<lparr>is_recording := True, recorded_path := []\<rparr>)"
    by (simp add: start_recording_initial)
  then have s1: "is_recording s1" "recorded_path s1 = []"
    by (simp_all add: say_def)
  from run s1 show ?thesis
    by (simp add: say_def)
qed

text \<open>
  Claim C6, as the code has it. \<^verbatim>\<open>process_command\<close> never looks at the threads it has
  started. Begin-playback (\<^verbatim>\<open>'p'\<close>) is refused exactly when a recording session is
  active and otherwise starts one more playback thread; begin-homing (\<^verbatim>\<open>'h'\<close>)
  always starts one more homing thread (the thread itself reports and returns at once
  when it finds a recording session active); begin-record (\<^verbatim>\<open>'r'\<close>) is refused
  exactly when a session is already active. None of the three depends on the runs in
  flight, so several playback and homing runs can be active at once and a recording can
  start during them.
\<close>

theorem long_runs_not_exclusive:
  "process_command ''p'' s =
      Some (if is_recording s then say Stop_recording_before_playback s
            else s\<lparr>threads := threads s @ [Playback Playback_entry]\<rparr>)
   \<and> process_command ''h'' s = Some (s\<lparr>threads := threads s @ [Home Home_entry]\<rparr>)
   \<and> return_to_neutral_slowly Home_entry s =
      Some (if is_recording s then (None, say Cannot_return_while_recording s)
            else (Some (Home_loop (current_angles s)), say Returning_to_neutral s))
   \<and> process_command ''r'' s =
      Some (if is_recording s then say Already_recording s
            else say Recording_started (s\<lparr>is_recording := True, recorded_path := []\<rparr>))"
  by (simp add: process_command_def record_if_movement_def)

lemmas run_defs = process_command_def record_if_movement_def record_current_state_def jog_def
  move_servo_def print_status_def playback_path_finish_def return_to_neutral_slowly_finish_def
  INCREMENT_def Let_def effect_defs

lemma playback_in_flight:
  "exec [Command ''r'', Command ''up'', Command ''o'', Command ''p'', Run 0] initial_state =
    Some (initial_state\<lparr>current_angles := AList.update ''shoulder'' 175 NEUTRAL_ANGLES,
        recorded_path := [AList.update ''shoulder'' 175 NEUTRAL_ANGLES],
        hw_writes := NEUTRAL_ANGLES @ [(''shoulder'', 175)],
        printed := printed initial_state @
          [Recording_started, Status [180, 0, 180, 100, 75, 90, 80] (Some 0),
           Status [180, 0, 175, 100, 75, 90, 80] (Some 1), Recording_stopped 1,
           Status [180, 0, 175, 100, 75, 90, 80] None,
           Status [180, 0, 175, 100, 75, 90, 80] None, Starting_playback],
        threads := [Playback (Playback_loop 0)]\<rparr>)"
  by (simp add: initial_state_eq run_defs NEUTRAL_ANGLES_def SERVO_PINS_def)

text \<open>
  The claim as the specification words it fails. After one move has been recorded and
  its playback has been started and has entered its loop, a second \<^verbatim>\<open>'p'\<close> starts a
  second playback thread without any report, \<^verbatim>\<open>'h'\<close> starts a homing thread beside
  the playback, and \<^verbatim>\<open>'r'\<close> starts a recording session and clears the trajectory
  that the playback is iterating over.
\<close>

theorem second_run_is_started:
  "\<exists>s p h r.
     exec [Command ''r'', Command ''up'', Command ''o'', Command ''p'', Run 0] initial_state = Some s
   \<and> threads s = [Playback (Playback_loop 0)] \<and> length (recorded_path s) = 1
   \<and> process_command ''p'' s = Some p
   \<and> threads p = [Playback (Playback_loop 0), Playback Playback_entry] \<and> printed p = printed s
   \<and> process_command ''h'' s = Some h
   \<and> threads h = [Playback (Playback_loop 0), Home Home_entry] \<and> printed h = printed s
   \<and> process_command ''r'' s = Some r
   \<and> is_recording r \<and> recorded_path r = [] \<and> printed r = printed s @ [Recording_started]
   \<and> threads r = [Playback (Playback_loop 0)]"
proof -
  define s where
    "s = initial_state\<lparr>current_angles := AList.update ''shoulder'' 175 NEUTRAL_ANGLES,
        recorded_path := [AList.update ''shoulder'' 175 NEUTRAL_ANGLES],
        hw_writes := NEUTRAL_ANGLES @ [(''shoulder'', 175)],
        printed := printed initial_state @
          [Recording_started, Status [180, 0, 180, 100, 75, 90, 80] (Some 0),
           Status [180, 0, 175, 100, 75, 90, 80] (Some 1), Recording_stopped 1,
           Status [180, 0, 175, 100, 75, 90, 80] None,
           Status [180, 0, 175, 100, 75, 90, 80] None, Starting_playback],
        threads := [Playback (Playback_loop 0)]\<rparr>"
  have run: "exec [Command ''r'', Command ''up'', Command ''o'', Command ''p'', Run 0] initial_state = Some s"
    unfolding s_def by (rule playback_in_flight)
  have fields: "threads s = [Playback (Playback_loop 0)]" "length (recorded_path s) = 1"
      "\<not> is_recording s"
    by (simp_all add: s_def initial_state_eq)
  have "process_command ''p'' s = Some (s\<lparr>threads := threads s @ [Playback Playback_entry]\<rparr>)"
    and "process_command ''h'' s = Some (s\<lparr>threads := threads s @ [Home Home_entry]\<rparr>)"
    and "process_command ''r'' s =
      Some (say Recording_started (s\<lparr>is_recording := True, recorded_path := []\<rparr>))"
    using fields(3) by (simp_all add: process_command_def record_if_movement_def)
  with run fields show ?thesis
    by (simp add: say_def)
qed

subsection \<open>Movement commands\<close>

lemma record_if_movement_fun:
  "record_if_movement command =
    (if command \<in> set [''r'', ''p'', ''o'', ''h'', ''help''] then (\<lambda>s. s)
     else record_current_state)"
  by (rule ext) (simp add: record_if_movement_def)

lemma process_command_jog:
  assumes "(command, name, delta) \<in> set jog_keys"
  shows "process_command command s = map_option record_current_state (jog name delta s)"
  using assms
  apply (simp add: jog_keys_def)
  apply (elim disjE conjE)
           apply (simp_all add: process_command_def record_if_movement_fun)
  done

lemma process_command_left:
  "process_command ''left'' s =
    do { s \<leftarrow> jog ''base_1'' INCREMENT s; s \<leftarrow> jog ''base_2'' (- INCREMENT) s;
         Some (record_current_state s) }"
  by (simp add: process_command_def record_if_movement_fun)

lemma process_command_right:
  "process_command ''right'' s =
    do { s \<leftarrow> jog ''base_1'' (- INCREMENT) s; s \<leftarrow> jog ''base_2'' INCREMENT s;
         Some (record_current_state s) }"
  by (simp add: process_command_def record_if_movement_fun)

lemma jog_eq:
  assumes "name \<in> set (map fst (servos s))" "map_of (current_angles s) name = Some a"
  shows "jog name delta s =
    Some (s\<lparr>current_angles := AList.update name (max 0 (min 180 (a + delta))) (current_angles s),
            hw_writes := hw_writes s @ [(name, max 0 (min 180 (a + delta)))]\<rparr>)"
  using assms by (simp add: jog_def move_servo_def servo_write_def Let_def)

text \<open>
  Claim C8. With the two base servos configured and standing at \<open>a\<close> and \<open>b\<close>, one
  \<^verbatim>\<open>'left'\<close> sets them to the clamped \<open>a + INCREMENT\<close> and the clamped
  \<open>b - INCREMENT\<close>, one \<^verbatim>\<open>'right'\<close> to the clamped \<open>a - INCREMENT\<close> and the clamped
  \<open>b + INCREMENT\<close>; each command writes both servos, base\_1 first, and only then, if
  a recording session is active, appends one snapshot, which holds both new angles.
\<close>

theorem differential_base_drive:
  assumes "''base_1'' \<in> set (map fst (servos s))" and "''base_2'' \<in> set (map fst (servos s))"
    and "map_of (current_angles s) ''base_1'' = Some a"
    and "map_of (current_angles s) ''base_2'' = Some b"
  shows "\<exists>l r.
     process_command ''left'' s = Some l
   \<and> map_of (current_angles l) ''base_1'' = Some (max 0 (min 180 (a + INCREMENT)))
   \<and> map_of (current_angles l) ''base_2'' = Some (max 0 (min 180 (b - INCREMENT)))
   \<and> hw_writes l = hw_writes s @
        [(''base_1'', max 0 (min 180 (a + INCREMENT))),
         (''base_2'', max 0 (min 180 (b - INCREMENT)))]
   \<and> recorded_path l =
        (if is_recording s then recorded_path s @ [current_angles l] else recorded_path s)
   \<and> process_command ''right'' s = Some r
   \<and> map_of (current_angles r) ''base_1'' = Some (max 0 (min 180 (a - INCREMENT)))
   \<and> map_of (current_angles r) ''base_2'' = Some (max 0 (min 180 (b + INCREMENT)))
   \<and> hw_writes r = hw_writes s @
        [(''base_1'', max 0 (min 180 (a - INCREMENT))),
         (''base_2'', max 0 (min 180 (b + INCREMENT)))]
   \<and> recorded_path r =
        (if is_recording s then recorded_path s @ [current_angles r] else recorded_path s)"
  using assms
  by (simp add: process_command_left process_command_right jog_eq update_conv'
      record_current_state_def)

theorem differential_base_drive_witness:
  "\<exists>l r.
     process_command ''left'' initial_state = Some l
   \<and> map_of (current_angles l) ''base_1'' = Some 180
   \<and> map_of (current_angles l) ''base_2'' = Some 0
   \<and> process_command ''right'' initial_state = Some r
   \<and> map_of (current_angles r) ''base_1'' = Some 175
   \<and> map_of (current_angles r) ''base_2'' = Some 5
   \<and> hw_writes r = NEUTRAL_ANGLES @ [(''base_1'', 175), (''base_2'', 5)]"
proof -
  have configured: "''base_1'' \<in> set (map fst (servos initial_state))"
      "''base_2'' \<in> set (map fst (servos initial_state))"
    by (simp_all add: initial_state_eq SERVO_PINS_def)
  have angles: "map_of (current_angles initial_state) ''base_1'' = Some 180"
      "map_of (current_angles initial_state) ''base_2'' = Some 0"
    by (simp_all add: initial_state_eq NEUTRAL_ANGLES_def)
  have writes: "hw_writes initial_state = NEUTRAL_ANGLES"
    by (simp add: initial_state_eq)
  from differential_base_drive [OF configured angles] writes show ?thesis
    by (auto simp: INCREMENT_def)
qed

text \<open>
  Claim C10. While a recording session is active, a key that moves one joint whose
  requested angle clamps back to the angle the joint already has (the joint stands at
  the limit of its range) is executed like any other move: the servo is written (with
  the angle it has), the arm state stays as it is, and one snapshot is appended, a copy
  of that same arm state. Repeating the key appends the identical snapshot again.
\<close>

theorem limit_move_still_recorded:
  assumes "is_recording s"
    and "(command, name, delta) \<in> set jog_keys"
    and "name \<in> set (map fst (servos s))"
    and "map_of (current_angles s) name = Some a"
    and "max 0 (min 180 (a + delta)) = a"
  shows "\<exists>s'. process_command command s = Some s'
    \<and> current_angles s' = current_angles s
    \<and> hw_writes s' = hw_writes s @ [(name, a)]
    \<and> recorded_path s' = recorded_path s @ [current_angles s]
    \<and> is_recording s' \<and> servos s' = servos s"
  using assms
  by (simp add: process_command_jog jog_eq update_triv record_current_state_def)

theorem limit_move_still_recorded_witness:
  "\<exists>s1 s2 s3. process_command ''r'' initial_state = Some s1
     \<and> process_command ''down'' s1 = Some s2 \<and> process_command ''down'' s2 = Some s3
     \<and> recorded_path s3 = [NEUTRAL_ANGLES, NEUTRAL_ANGLES]
     \<and> current_angles s3 = NEUTRAL_ANGLES"
proof -
  define s1 where
    "s1 = say Recording_started (initial_state\<lparr>is_recording := True, recorded_path := []\<rparr>)"
  have key: "(''down'', ''shoulder'', INCREMENT) \<in> set jog_keys"
    by (simp add: jog_keys_def)
  have limit: "max 0 (min 180 (180 + INCREMENT)) = 180"
    by (simp add: INCREMENT_def)
  have s1: "is_recording s1" "''shoulder'' \<in> set (map fst (servos s1))"
      "map_of (current_angles s1) ''shoulder'' = Some 180"
      "recorded_path s1 = []" "current_angles s1 = NEUTRAL_ANGLES"
    by (simp_all add: s1_def say_def initial_state_eq SERVO_PINS_def NEUTRAL_ANGLES_def)
  from limit_move_still_recorded [OF s1(1) key s1(2) s1(3) limit]
  obtain s2 where s2: "process_command ''down'' s1 = Some s2"
      "current_angles s2 = current_angles s1"
      "recorded_path s2 = recorded_path s1 @ [current_angles s1]"
      "is_recording s2" "servos s2 = servos s1"
    by blast
  have at_limit: "''shoulder'' \<in> set (map fst (servos s2))"
      "map_of (current_angles s2) ''shoulder'' = Some 180"
    using s1 s2 by simp_all
  from limit_move_still_recorded [OF s2(4) key at_limit limit]
  obtain s3 where s3: "process_command ''down'' s2 = Some s3"
      "current_angles s3 = current_angles s2"
      "recorded_path s3 = recorded_path s2 @ [current_angles s2]"
    by blast
  have "process_command ''r'' initial_state = Some s1"
    by (simp add: s1_def start_recording_initial)
  with s1 s2 s3 show ?thesis
    by simp
qed

subsection \<open>The range invariant\<close>

lemma in_range_update:
  "in_range d \<Longrightarrow> 0 \<le> a \<Longrightarrow> a \<le> 180 \<Longrightarrow> in_range (AList.update k a d)"
  by (induction d) (auto simp: in_range_def)

lemma in_range_neutral: "in_range NEUTRAL_ANGLES"
  by (simp add: in_range_def NEUTRAL_ANGLES_def)

lemma angles_inv_say [simp]: "angles_inv (say m s) = angles_inv s"
  by (simp add: angles_inv_def say_def)

lemma angles_inv_threads [simp]: "angles_inv (s\<lparr>threads := ts\<rparr>) = angles_inv s"
  by (simp add: angles_inv_def)

lemma angles_inv_is_recording [simp]: "angles_inv (s\<lparr>is_recording := b\<rparr>) = angles_inv s"
  by (simp add: angles_inv_def)

lemma angles_inv_clear: "angles_inv s \<Longrightarrow> angles_inv (s\<lparr>recorded_path := []\<rparr>)"
  by (simp add: angles_inv_def)

lemma angles_inv_move_servo: "angles_inv s \<Longrightarrow> angles_inv (snd (move_servo name angle s))"
  by (simp add: move_servo_def Let_def angles_inv_def servo_write_def say_def in_range_update)

lemma angles_inv_jog: "jog name delta s = Some s' \<Longrightarrow> angles_inv s \<Longrightarrow> angles_inv s'"
  by (auto simp: jog_def angles_inv_move_servo split: Option.bind_splits)

lemma angles_inv_record: "angles_inv s \<Longrightarrow> angles_inv (record_current_state s)"
  by (simp add: record_current_state_def angles_inv_def)

lemma print_status_says: "print_status s = Some s' \<Longrightarrow> \<exists>m. s' = say m s"
  by (auto simp: print_status_def split: Option.bind_splits)

lemma angles_inv_print_status: "print_status s = Some s' \<Longrightarrow> angles_inv s \<Longrightarrow> angles_inv s'"
  by (auto dest: print_status_says)

lemma angles_inv_process_command:
  assumes "process_command command s = Some s'" "angles_inv s"
  shows "angles_inv s'"
  using assms
  by (auto simp: process_command_def record_if_movement_fun print_instructions_def
      angles_inv_record angles_inv_clear
      split: if_splits Option.bind_splits dest!: angles_inv_jog)

lemma angles_inv_playback_write:
  "playback_write items s = Some s' \<Longrightarrow> in_range items \<Longrightarrow> angles_inv s \<Longrightarrow> angles_inv s'"
proof (induction items arbitrary: s)
  case Nil
  then show ?case by simp
next
  case (Cons item items)
  obtain name angle where item: "item = (name, angle)"
    by (cases item)
  from Cons.prems item have range: "0 \<le> angle" "angle \<le> 180" "in_range items"
    by (simp_all add: in_range_def)
  from Cons.prems item have
    "playback_write items
       ((servo_write name angle s)\<lparr>current_angles := AList.update name angle (current_angles s)\<rparr>) = Some s'"
    by (simp split: if_splits)
  moreover have "angles_inv ((servo_write name angle s)\<lparr>current_angles := AList.update name angle (current_angles s)\<rparr>)"
    using Cons.prems(3) range by (simp add: angles_inv_def servo_write_def in_range_update)
  ultimately show ?case
    using range(3) Cons.IH by blast
qed

lemma angles_inv_playback_path:
  assumes "playback_path pc s = Some (pc', s')" "angles_inv s"
  shows "angles_inv s'"
proof (cases pc)
  case Playback_entry
  with assms show ?thesis
    by (auto split: if_splits)
next
  case (Playback_loop i)
  with assms show ?thesis
    by (auto simp: playback_path_finish_def angles_inv_def [of s] list_all_length
        split: if_splits Option.bind_splits
        dest!: angles_inv_print_status angles_inv_playback_write)
qed

lemma angles_inv_neutral_tick:
  "neutral_tick names temp s = Some (temp', s') \<Longrightarrow> angles_inv s \<Longrightarrow> angles_inv s'"
  by (induction names temp s rule: neutral_tick.induct)
     (auto simp: Let_def angles_inv_move_servo split: Option.bind_splits if_splits)

lemma angles_inv_return_to_neutral_slowly:
  assumes "return_to_neutral_slowly pc s = Some (pc', s')" "angles_inv s"
  shows "angles_inv s'"
proof (cases pc)
  case Home_entry
  with assms show ?thesis
    by (auto split: if_splits)
next
  case (Home_loop temp)
  with assms show ?thesis
    by (auto simp: return_to_neutral_slowly_finish_def
        split: if_splits Option.bind_splits
        dest!: angles_inv_print_status angles_inv_neutral_tick)
qed

lemma angles_inv_thread_quantum:
  assumes "thread_quantum t s = Some (t', s')" "angles_inv s"
  shows "angles_inv s'"
  using assms
  by (cases t) (auto dest: angles_inv_playback_path angles_inv_return_to_neutral_slowly)

lemma angles_inv_step:
  assumes "step a s = Some s'" "angles_inv s"
  shows "angles_inv s'"
proof (cases a)
  case (Command command)
  with assms show ?thesis
    by (auto split: if_splits Option.bind_splits
        dest: angles_inv_process_command angles_inv_print_status)
next
  case Escape
  with assms show ?thesis
    by (auto simp: angles_inv_def)
next
  case (Run n)
  with assms show ?thesis
    by (auto split: if_splits Option.bind_splits option.splits dest: angles_inv_thread_quantum)
qed

lemma angles_inv_initial: "angles_inv initial_state"
  by (simp add: angles_inv_def initial_state_eq in_range_neutral)

lemma exec_append: "exec (xs @ ys) s = exec xs s \<bind> exec ys"
  by (induction xs arbitrary: s) (simp_all split: Option.bind_split)

lemma exec_reachable: "reachable s \<Longrightarrow> exec acts s = Some s' \<Longrightarrow> reachable s'"
  by (induction acts arbitrary: s) (auto split: Option.bind_splits intro: reachable.next_state)

text \<open>
  Claim C2. In every state that the running program can reach from the state
  \<^verbatim>\<open>setup_board\<close> leaves (by key presses decoded into commands, by the escape key
  and by any interleaving of the quanta of the playback and homing threads it has
  started), every angle stored in \<^verbatim>\<open>current_angles\<close> lies within \<open>[0, 180]\<close>.
  Playback stores snapshot angles without clamping them, but every snapshot is a copy
  of an earlier \<^verbatim>\<open>current_angles\<close>, so its angles are in range already.
\<close>

theorem stored_angles_in_range:
  assumes "reachable s"
  shows "in_range (current_angles s)"
proof -
  from assms have "angles_inv s"
    by (induction rule: reachable.induct) (auto intro: angles_inv_initial angles_inv_step)
  then show ?thesis
    by (simp add: angles_inv_def)
qed

theorem stored_angles_in_range_witness:
  "\<exists>s. exec [Command ''r'', Command ''up'', Command ''o'', Command ''p'', Run 0] initial_state = Some s
     \<and> reachable s \<and> in_range (current_angles s)
     \<and> map_of (current_angles s) ''shoulder'' = Some 175"
proof -
  from playback_in_flight obtain s where
    run: "exec [Command ''r'', Command ''up'', Command ''o'', Command ''p'', Run 0] initial_state = Some s"
    and angles: "current_angles s = AList.update ''shoulder'' 175 NEUTRAL_ANGLES"
    by simp
  from reachable.start run have "reachable s"
    by (rule exec_reachable)
  with stored_angles_in_range [of s] run angles show ?thesis
    by (simp add: update_conv')
qed

subsection \<open>Playback of a recording\<close>

subsubsection \<open>Dictionaries\<close>

lemma update_after_prefix:
  "k \<notin> fst ` set pre \<Longrightarrow> AList.update k v (pre @ ys) = pre @ AList.update k v ys"
  by (induction pre) auto

lemma fold_update_overwrites:
  assumes "distinct (map fst (pre @ items))" "map fst cur = map fst items"
  shows "fold (\<lambda>(k, v). AList.update k v) items (pre @ cur) = pre @ items"
  using assms
proof (induction items arbitrary: pre cur)
  case Nil
  then show ?case by simp
next
  case (Cons item items)
  obtain k v where item: "item = (k, v)"
    by (cases item)
  from Cons.prems(2) item obtain v0 cur' where cur: "cur = (k, v0) # cur'"
      and keys: "map fst cur' = map fst items"
    by (cases cur) auto
  from Cons.prems(1) item have fresh: "k \<notin> fst ` set pre"
    by auto
  have "fold (\<lambda>(k, v). AList.update k v) (item # items) (pre @ cur) =
      fold (\<lambda>(k, v). AList.update k v) items ((pre @ [(k, v)]) @ cur')"
    using fresh by (simp add: item cur update_after_prefix)
  also have "\<dots> = (pre @ [(k, v)]) @ items"
    using Cons.prems(1) keys by (intro Cons.IH) (simp_all add: item)
  finally show ?case
    by (simp add: item)
qed

lemma keys_update_same:
  "k \<in> set (map fst d) \<Longrightarrow> map fst (AList.update k v d) = map fst d"
  by (simp add: update_keys)

lemma same_keys_same_values:
  assumes "map fst xs = map fst ys" "distinct (map fst xs)" "\<And>k. k \<in> set (map fst xs) \<Longrightarrow> map_of xs k = map_of ys k"
  shows "xs = ys"
  using assms
proof (induction xs arbitrary: ys)
  case Nil
  then show ?case by simp
next
  case (Cons x xs)
  then obtain y ys' where ys: "ys = y # ys'" "fst x = fst y" "map fst xs = map fst ys'"
    by (cases ys) auto
  from Cons.prems(3) [of "fst x"] ys have "snd x = snd y"
    by (cases x; cases y) auto
  with ys have head: "x = y"
    by (simp add: prod_eq_iff)
  have "xs = ys'"
  proof (rule Cons.IH [OF ys(3)])
    show "distinct (map fst xs)"
      using Cons.prems(2) by simp
    fix k assume k: "k \<in> set (map fst xs)"
    with Cons.prems(2) have "k \<noteq> fst x"
      by force
    with Cons.prems(3) [of k] k ys show "map_of xs k = map_of ys' k"
      by (cases x; cases y) (auto split: if_splits)
  qed
  with head ys show ?case
    by simp
qed

subsubsection \<open>Status line\<close>

lemma print_status_eq:
  assumes "map fst (current_angles s) = map fst NEUTRAL_ANGLES"
  shows "print_status s =
    Some (say (Status (map snd (current_angles s))
                 (if is_recording s then Some (length (recorded_path s)) else None)) s)"
proof -
  from assms obtain a1 a2 a3 a4 a5 a6 a7 where
    "current_angles s = [(''base_1'', a1), (''base_2'', a2), (''shoulder'', a3), (''elbow'', a4),
       (''arm_bend'', a5), (''gripper_rotate'', a6), (''gripper_grasp'', a7)]"
    by (auto simp: NEUTRAL_ANGLES_def map_eq_Cons_conv)
  then show ?thesis
    by (simp add: print_status_def)
qed

subsubsection \<open>The playback thread\<close>

lemma playback_write_eq:
  assumes "set (map fst items) \<subseteq> set (map fst (servos s))"
  shows "playback_write items s =
    Some (s\<lparr>hw_writes := hw_writes s @ items,
            current_angles := fold (\<lambda>(k, v). AList.update k v) items (current_angles s)\<rparr>)"
  using assms
proof (induction items arbitrary: s)
  case Nil
  then show ?case by simp
next
  case (Cons item items)
  obtain name angle where item: "item = (name, angle)"
    by (cases item)
  let ?s = "(servo_write name angle s)\<lparr>current_angles := AList.update name angle (current_angles s)\<rparr>"
  have "set (map fst items) \<subseteq> set (map fst (servos ?s))"
    using Cons.prems by (simp add: servo_write_def)
  from Cons.IH [OF this] Cons.prems show ?case
    by (simp add: item servo_write_def)
qed

lemma playback_write_snapshot:
  assumes "servos s = SERVO_PINS" "map fst (current_angles s) = map fst NEUTRAL_ANGLES"
    "map fst snapshot = map fst NEUTRAL_ANGLES"
  shows "playback_write snapshot s =
    Some (s\<lparr>hw_writes := hw_writes s @ snapshot, current_angles := snapshot\<rparr>)"
proof -
  have "fold (\<lambda>(k, v). AList.update k v) snapshot ([] @ current_angles s) = [] @ snapshot"
    using assms joint_names_distinct by (intro fold_update_overwrites) simp_all
  moreover have "set (map fst snapshot) \<subseteq> set (map fst (servos s))"
    using assms by (simp add: joint_names)
  ultimately show ?thesis
    by (simp add: playback_write_eq)
qed

lemma exec_replicate_Suc: "exec (replicate (Suc n) a) s = exec (replicate n a) s \<bind> step a"
proof -
  have "replicate (Suc n) a = replicate n a @ [a]"
    by (simp add: replicate_append_same)
  then show ?thesis
    by (simp only: exec_append) (simp cong: Option.bind_cong)
qed

lemma step_Run_idle: "threads s = [] \<Longrightarrow> step (Run n) s = Some s"
  by simp

lemma exec_Run_idle: "threads s = [] \<Longrightarrow> exec (replicate m (Run n)) s = Some s"
  by (induction m) simp_all

text \<open>The state of a playback run after the entry and \<open>k\<close> iterations.\<close>

lemma playback_run_prefix:
  assumes "well_formed s" "\<not> stop_event s" "threads s = [Playback Playback_entry]"
    and "recorded_path s \<noteq> []" "k \<le> length (recorded_path s)"
  shows "exec (replicate (Suc k) (Run 0)) s =
    Some (s\<lparr>current_angles := (if k = 0 then current_angles s else recorded_path s ! (k - 1)),
            hw_writes := hw_writes s @ concat (take k (recorded_path s)),
            printed := printed s @ [Starting_playback],
            threads := [Playback (Playback_loop k)]\<rparr>)"
  using assms(5)
proof (induction k)
  case 0
  from assms(3,4) show ?case
    by (simp add: say_def)
next
  case (Suc k)
  let ?sk = "s\<lparr>current_angles := (if k = 0 then current_angles s else recorded_path s ! (k - 1)),
            hw_writes := hw_writes s @ concat (take k (recorded_path s)),
            printed := printed s @ [Starting_playback],
            threads := [Playback (Playback_loop k)]\<rparr>"
  from Suc have run: "exec (replicate (Suc k) (Run 0)) s = Some ?sk" and k: "k < length (recorded_path s)"
    by simp_all
  from assms(1) k have keys: "map fst (recorded_path s ! k) = map fst NEUTRAL_ANGLES"
    by (simp add: well_formed_def list_all_length)
  have keys': "map fst (current_angles ?sk) = map fst NEUTRAL_ANGLES"
    using assms(1) k by (simp add: well_formed_def list_all_length)
  have "servos ?sk = SERVO_PINS"
    using assms(1) by (simp add: well_formed_def)
  from playback_write_snapshot [OF this keys' keys]
  have snapshot_written: "playback_write (recorded_path s ! k) ?sk =
      Some (?sk\<lparr>hw_writes := hw_writes ?sk @ recorded_path s ! k, current_angles := recorded_path s ! k\<rparr>)" .
  have "step (Run 0) ?sk =
    Some (s\<lparr>current_angles := recorded_path s ! k,
            hw_writes := hw_writes s @ concat (take (Suc k) (recorded_path s)),
            printed := printed s @ [Starting_playback],
            threads := [Playback (Playback_loop (Suc k))]\<rparr>)"
    using k assms(2) by (simp add: snapshot_written take_Suc_conv_app_nth)
  with run show ?case
    by (simp only: exec_replicate_Suc [of "Suc k"]) simp
qed

lemma playback_run_complete:
  assumes "well_formed s" "\<not> stop_event s" "threads s = [Playback Playback_entry]"
    and "recorded_path s \<noteq> []"
  shows "exec (replicate (length (recorded_path s) + 2) (Run 0)) s =
    Some (s\<lparr>current_angles := last (recorded_path s),
            hw_writes := hw_writes s @ concat (recorded_path s),
            printed := printed s @
              [Starting_playback, Playback_finished,
               Status (map snd (last (recorded_path s)))
                 (if is_recording s then Some (length (recorded_path s)) else None)],
            threads := []\<rparr>)"
proof -
  let ?n = "length (recorded_path s)"
  let ?s = "s\<lparr>current_angles := last (recorded_path s),
            hw_writes := hw_writes s @ concat (recorded_path s),
            printed := printed s @ [Starting_playback],
            threads := [Playback (Playback_loop ?n)]\<rparr>"
  from assms(4) have "exec (replicate (Suc ?n) (Run 0)) s = Some ?s"
    using playback_run_prefix [OF assms order_refl]
    by (simp add: last_conv_nth del: replicate.simps)
  moreover have "map fst (current_angles (say Playback_finished ?s)) = map fst NEUTRAL_ANGLES"
    using assms(1,4) by (simp add: well_formed_def say_def list_all_iff)
  then have "step (Run 0) ?s =
    Some (s\<lparr>current_angles := last (recorded_path s),
            hw_writes := hw_writes s @ concat (recorded_path s),
            printed := printed s @
              [Starting_playback, Playback_finished,
               Status (map snd (last (recorded_path s)))
                 (if is_recording s then Some (length (recorded_path s)) else None)],
            threads := []\<rparr>)"
    by (simp add: playback_path_finish_def print_status_eq) (simp add: say_def)
  ultimately show ?thesis
    by (simp only: exec_replicate_Suc [of "Suc ?n"] add_2_eq_Suc') simp
qed

lemma playback_run_cancelled:
  assumes "well_formed s" "\<not> stop_event s" "threads s = [Playback Playback_entry]"
    and "k < length (recorded_path s)"
  shows "exec (replicate (Suc k) (Run 0) @ [Escape, Run 0]) s =
    Some (s\<lparr>current_angles := (if k = 0 then current_angles s else recorded_path s ! (k - 1)),
            stop_event := True,
            hw_writes := hw_writes s @ concat (take k (recorded_path s)),
            printed := printed s @
              [Starting_playback, Playback_interrupted, Playback_finished,
               Status (map snd (if k = 0 then current_angles s else recorded_path s ! (k - 1)))
                 (if is_recording s then Some (length (recorded_path s)) else None)],
            threads := []\<rparr>)"
proof -
  let ?cur = "if k = 0 then current_angles s else recorded_path s ! (k - 1)"
  let ?s = "s\<lparr>current_angles := ?cur,
            hw_writes := hw_writes s @ concat (take k (recorded_path s)),
            printed := printed s @ [Starting_playback],
            threads := [Playback (Playback_loop k)]\<rparr>"
  from assms(4) have nonempty: "recorded_path s \<noteq> []" and le: "k \<le> length (recorded_path s)"
    by auto
  have run: "exec (replicate (Suc k) (Run 0)) s = Some ?s"
    by (rule playback_run_prefix [OF assms(1-3) nonempty le])
  have keys: "map fst ?cur = map fst NEUTRAL_ANGLES"
    using assms(1,4) by (simp add: well_formed_def list_all_length)
  then have "map fst (current_angles (say Playback_finished (say Playback_interrupted (?s\<lparr>stop_event := True\<rparr>)))) =
      map fst NEUTRAL_ANGLES"
    by (simp add: say_def)
  then have "step (Run 0) (?s\<lparr>stop_event := True\<rparr>) =
    Some (s\<lparr>current_angles := ?cur, stop_event := True,
            hw_writes := hw_writes s @ concat (take k (recorded_path s)),
            printed := printed s @
              [Starting_playback, Playback_interrupted, Playback_finished,
               Status (map snd ?cur)
                 (if is_recording s then Some (length (recorded_path s)) else None)],
            threads := []\<rparr>)"
    using assms(4) by (simp add: playback_path_finish_def print_status_eq) (simp add: say_def)
  with run show ?thesis
    by (simp only: exec_append) simp
qed

subsubsection \<open>Recording\<close>

lemma jog_well_formed:
  assumes "well_formed s" "name \<in> set (map fst NEUTRAL_ANGLES)"
  shows "\<exists>s'. jog name delta s = Some s' \<and> well_formed s' \<and> same_session s s'
    \<and> recorded_path s' = recorded_path s"
proof -
  from assms have "name \<in> fst ` set (current_angles s)"
    by (simp add: well_formed_def flip: set_map)
  then have "\<exists>a. map_of (current_angles s) name = Some a"
    by (auto dest: weak_map_of_SomeI)
  then obtain a where a: "map_of (current_angles s) name = Some a" ..
  from assms have configured: "name \<in> set (map fst (servos s))"
    by (simp add: well_formed_def joint_names)
  from assms have "name \<in> set (map fst (current_angles s))"
    by (simp add: well_formed_def)
  then have "map fst (AList.update name (max 0 (min 180 (a + delta))) (current_angles s)) =
      map fst (current_angles s)"
    by (rule keys_update_same)
  with assms(1) show ?thesis
    by (simp add: jog_eq [OF configured a] well_formed_def same_session_def)
qed

lemma record_well_formed:
  assumes "well_formed s"
  shows "well_formed (record_current_state s) \<and> same_session s (record_current_state s)
    \<and> current_angles (record_current_state s) = current_angles s
    \<and> recorded_path (record_current_state s) =
        (if is_recording s then recorded_path s @ [current_angles s] else recorded_path s)"
  using assms by (simp add: record_current_state_def well_formed_def same_session_def)

lemma jog_key_joint:
  "(command, name, delta) \<in> set jog_keys \<Longrightarrow> name \<in> set (map fst NEUTRAL_ANGLES)"
  by (auto simp: jog_keys_def NEUTRAL_ANGLES_def)

lemma base_joints: "''base_1'' \<in> set (map fst NEUTRAL_ANGLES)" "''base_2'' \<in> set (map fst NEUTRAL_ANGLES)"
  by (simp_all add: NEUTRAL_ANGLES_def)

lemma movement_key_cases:
  assumes "command \<in> set movement_keys"
  shows "command = ''left'' \<or> command = ''right'' \<or> command \<in> set (map fst jog_keys)"
  using assms by (simp add: movement_keys_def jog_keys_def)

lemma same_session_trans: "same_session s t \<Longrightarrow> same_session t u \<Longrightarrow> same_session s u"
  by (simp add: same_session_def)

lemma movement_command:
  assumes "well_formed s" "command \<in> set movement_keys"
  shows "\<exists>s'. process_command command s = Some s' \<and> well_formed s' \<and> same_session s s'
    \<and> recorded_path s' =
        (if is_recording s then recorded_path s @ [current_angles s'] else recorded_path s)"
proof -
  have two: "\<exists>s'. (do { s \<leftarrow> jog n1 d1 s; s \<leftarrow> jog n2 d2 s; Some (record_current_state s) }) = Some s'
      \<and> well_formed s' \<and> same_session s s'
      \<and> recorded_path s' =
        (if is_recording s then recorded_path s @ [current_angles s'] else recorded_path s)"
    if "n1 \<in> set (map fst NEUTRAL_ANGLES)" "n2 \<in> set (map fst NEUTRAL_ANGLES)" for n1 d1 n2 d2
  proof -
    from jog_well_formed [OF assms(1) that(1)] obtain s1 where
      s1: "jog n1 d1 s = Some s1" "well_formed s1" "same_session s s1"
        "recorded_path s1 = recorded_path s"
      by blast
    from jog_well_formed [OF s1(2) that(2)] obtain s2 where
      s2: "jog n2 d2 s1 = Some s2" "well_formed s2" "same_session s1 s2"
        "recorded_path s2 = recorded_path s1"
      by blast
    from s1 s2 record_well_formed [OF s2(2)] show ?thesis
      by (auto simp: same_session_def)
  qed
  from movement_key_cases [OF assms(2)]
  consider "command = ''left''" | "command = ''right''"
    | name delta where "(command, name, delta) \<in> set jog_keys"
    by force
  then show ?thesis
  proof cases
    case 1
    with two [OF base_joints] show ?thesis
      by (simp only: process_command_left)
  next
    case 2
    with two [OF base_joints] show ?thesis
      by (simp only: process_command_right)
  next
    case 3
    from jog_well_formed [OF assms(1) jog_key_joint [OF 3]] obtain s1 where
      s1: "jog name delta s = Some s1" "well_formed s1" "same_session s s1"
        "recorded_path s1 = recorded_path s"
      by blast
    from s1 record_well_formed [OF s1(2)] show ?thesis
      by (auto simp: process_command_jog [OF 3] same_session_def)
  qed
qed

lemma movement_step:
  assumes "well_formed s" "command \<in> set movement_keys" "\<not> stop_event s"
  shows "\<exists>s'. step (Command command) s = Some s' \<and> well_formed s' \<and> same_session s s'
    \<and> recorded_path s' =
        (if is_recording s then recorded_path s @ [current_angles s'] else recorded_path s)"
proof -
  from movement_command [OF assms(1,2)] obtain s1 where
    s1: "process_command command s = Some s1" "well_formed s1" "same_session s s1"
      "recorded_path s1 =
        (if is_recording s then recorded_path s @ [current_angles s1] else recorded_path s)"
    by blast
  from s1(2) have "map fst (current_angles s1) = map fst NEUTRAL_ANGLES"
    by (simp add: well_formed_def)
  from print_status_eq [OF this] s1 assms(3) show ?thesis
    by (auto simp: say_def well_formed_def same_session_def)
qed

text \<open>A recording session that starts with an empty trajectory.\<close>

lemma recording_run:
  assumes "well_formed s" "is_recording s" "\<not> stop_event s" "recorded_path s = []"
    and "set moves \<subseteq> set movement_keys"
  shows "\<exists>s'. exec (map Command moves) s = Some s' \<and> well_formed s' \<and> same_session s s'
    \<and> length (recorded_path s') = length moves
    \<and> (moves = [] \<or> current_angles s' = last (recorded_path s'))
    \<and> (\<forall>k<length moves. \<exists>sk. exec (map Command (take (Suc k) moves)) s = Some sk
          \<and> current_angles sk = recorded_path s' ! k)"
  using assms(5)
proof (induction moves rule: rev_induct)
  case Nil
  from assms show ?case
    by (simp add: same_session_def)
next
  case (snoc m moves)
  then obtain s1 where s1: "exec (map Command moves) s = Some s1" "well_formed s1"
      "same_session s s1" "length (recorded_path s1) = length moves"
      and trace: "\<forall>k<length moves. \<exists>sk. exec (map Command (take (Suc k) moves)) s = Some sk
          \<and> current_angles sk = recorded_path s1 ! k"
    by auto
  from snoc.prems have m: "m \<in> set movement_keys"
    by simp
  from s1(3) assms have "\<not> stop_event s1" "is_recording s1"
    by (simp_all add: same_session_def)
  with movement_step [OF s1(2) m] obtain s2 where
    s2: "step (Command m) s1 = Some s2" "well_formed s2" "same_session s1 s2"
      "recorded_path s2 = recorded_path s1 @ [current_angles s2]"
    by auto
  have run: "exec (map Command (moves @ [m])) s = Some s2"
    using s1(1) s2(1) by (simp add: exec_append)
  have "\<exists>sk. exec (map Command (take (Suc k) (moves @ [m]))) s = Some sk
          \<and> current_angles sk = recorded_path s2 ! k" if "k < length (moves @ [m])" for k
  proof (cases "k < length moves")
    case True
    with trace s1(4) s2(4) show ?thesis
      by (simp add: nth_append)
  next
    case False
    with that have "k = length moves"
      by simp
    with run s1(4) s2(4) show ?thesis
      by (simp add: nth_append)
  qed
  with run s1 s2 show ?case
    by (auto intro: same_session_trans)
qed

lemma start_recording_step:
  assumes "well_formed s" "\<not> is_recording s" "\<not> stop_event s"
  shows "step (Command ''r'') s =
    Some (say (Status (map snd (current_angles s)) (Some 0))
           (say Recording_started (s\<lparr>is_recording := True, recorded_path := []\<rparr>)))"
proof -
  have "map fst (current_angles (say Recording_started (s\<lparr>is_recording := True, recorded_path := []\<rparr>))) =
      map fst NEUTRAL_ANGLES"
    using assms(1) by (simp add: well_formed_def say_def)
  from print_status_eq [OF this] assms(2,3) show ?thesis
    by (simp add: process_command_def record_if_movement_def) (simp add: say_def)
qed

lemma stop_recording_step:
  assumes "well_formed s" "is_recording s" "\<not> stop_event s"
  shows "step (Command ''o'') s =
    Some (say (Status (map snd (current_angles s)) None)
           (say (Recording_stopped (length (recorded_path s))) (s\<lparr>is_recording := False\<rparr>)))"
proof -
  have "map fst (current_angles (say (Recording_stopped (length (recorded_path s))) (s\<lparr>is_recording := False\<rparr>))) =
      map fst NEUTRAL_ANGLES"
    using assms(1) by (simp add: well_formed_def say_def)
  from print_status_eq [OF this] assms(2,3) show ?thesis
    by (simp add: process_command_def record_if_movement_def) (simp add: say_def)
qed

lemma start_playback_step:
  assumes "well_formed s" "\<not> is_recording s" "\<not> stop_event s"
  shows "step (Command ''p'') s =
    Some (say (Status (map snd (current_angles s)) None)
           (s\<lparr>threads := threads s @ [Playback Playback_entry]\<rparr>))"
proof -
  have "map fst (current_angles (s\<lparr>threads := threads s @ [Playback Playback_entry]\<rparr>)) =
      map fst NEUTRAL_ANGLES"
    using assms(1) by (simp add: well_formed_def)
  from print_status_eq [OF this] assms(2,3) show ?thesis
    by (simp add: process_command_def record_if_movement_def)
qed

text \<open>Recording \<open>moves\<close> and asking for the playback.\<close>

lemma record_then_play:
  assumes "well_formed s" "\<not> is_recording s" "\<not> stop_event s" "threads s = []"
    and "set moves \<subseteq> set movement_keys"
  shows "\<exists>s1. exec (Command ''r'' # map Command moves @ [Command ''o'', Command ''p'']) s = Some s1
    \<and> well_formed s1 \<and> \<not> is_recording s1 \<and> \<not> stop_event s1
    \<and> threads s1 = [Playback Playback_entry]
    \<and> length (recorded_path s1) = length moves
    \<and> (moves = [] \<or> current_angles s1 = last (recorded_path s1))
    \<and> (\<forall>k<length moves. \<exists>sk.
          exec (Command ''r'' # map Command (take (Suc k) moves)) s = Some sk
          \<and> current_angles sk = recorded_path s1 ! k)"
proof -
  let ?r = "say (Status (map snd (current_angles s)) (Some 0))
           (say Recording_started (s\<lparr>is_recording := True, recorded_path := []\<rparr>))"
  have r: "step (Command ''r'') s = Some ?r"
    using assms(1-3) by (rule start_recording_step)
  have "well_formed ?r" "is_recording ?r" "\<not> stop_event ?r" "recorded_path ?r = []"
    using assms(1,3) by (simp_all add: well_formed_def say_def)
  from recording_run [OF this assms(5)] obtain s' where
    s': "exec (map Command moves) ?r = Some s'" "well_formed s'" "same_session ?r s'"
      "length (recorded_path s') = length moves"
      "moves = [] \<or> current_angles s' = last (recorded_path s')"
    and trace: "\<forall>k<length moves. \<exists>sk. exec (map Command (take (Suc k) moves)) ?r = Some sk
          \<and> current_angles sk = recorded_path s' ! k"
    by blast
  from s'(3) assms(3,4) have session: "is_recording s'" "\<not> stop_event s'" "threads s' = []"
    by (simp_all add: same_session_def say_def)
  let ?o = "say (Status (map snd (current_angles s')) None)
           (say (Recording_stopped (length (recorded_path s'))) (s'\<lparr>is_recording := False\<rparr>))"
  have o: "step (Command ''o'') s' = Some ?o"
    using s'(2) session(1,2) by (rule stop_recording_step)
  have stopped: "well_formed ?o" "\<not> is_recording ?o" "\<not> stop_event ?o"
    using s'(2) session by (simp_all add: well_formed_def say_def)
  let ?p = "say (Status (map snd (current_angles ?o)) None)
           (?o\<lparr>threads := threads ?o @ [Playback Playback_entry]\<rparr>)"
  have p: "step (Command ''p'') ?o = Some ?p"
    using stopped by (rule start_playback_step)
  have "exec (Command ''r'' # map Command moves @ [Command ''o'', Command ''p'']) s = Some ?p"
    using r s'(1) o p by (simp add: exec_append)
  moreover have "well_formed ?p" "\<not> is_recording ?p" "\<not> stop_event ?p"
      "threads ?p = [Playback Playback_entry]" "recorded_path ?p = recorded_path s'"
      "current_angles ?p = current_angles s'"
    using s'(2) session by (simp_all add: well_formed_def say_def)
  moreover have "\<forall>k<length moves. \<exists>sk.
          exec (Command ''r'' # map Command (take (Suc k) moves)) s = Some sk
          \<and> current_angles sk = recorded_path s' ! k"
    using trace r by simp
  ultimately show ?thesis
    using s'(4,5) by (intro exI [of _ ?p]) simp
qed

lemma well_formed_initial: "well_formed initial_state"
  by (simp add: well_formed_def initial_state_eq)

lemma two_moves_recorded:
  "exec [Command ''r'', Command ''up'', Command ''up'', Command ''o'', Command ''p''] initial_state =
    Some (initial_state\<lparr>current_angles := AList.update ''shoulder'' 170 NEUTRAL_ANGLES,
        recorded_path :=
          [AList.update ''shoulder'' 175 NEUTRAL_ANGLES, AList.update ''shoulder'' 170 NEUTRAL_ANGLES],
        hw_writes := NEUTRAL_ANGLES @ [(''shoulder'', 175), (''shoulder'', 170)],
        printed := printed initial_state @
          [Recording_started, Status [180, 0, 180, 100, 75, 90, 80] (Some 0),
           Status [180, 0, 175, 100, 75, 90, 80] (Some 1),
           Status [180, 0, 170, 100, 75, 90, 80] (Some 2), Recording_stopped 2,
           Status [180, 0, 170, 100, 75, 90, 80] None,
           Status [180, 0, 170, 100, 75, 90, 80] None],
        threads := [Playback Playback_entry]\<rparr>)"
  by (simp add: initial_state_eq run_defs NEUTRAL_ANGLES_def SERVO_PINS_def)

text \<open>
  Claim C3. From a state with no recording session, no stop request and no thread, let
  \<open>N \<ge> 1\<close> movement keys be recorded (\<^verbatim>\<open>'r'\<close>, the keys, \<^verbatim>\<open>'o'\<close>) and the
  playback be started (\<^verbatim>\<open>'p'\<close>). The trajectory then holds \<open>N\<close> snapshots, the
  \<open>k\<close>-th being the arm state right after the \<open>k\<close>-th key, each with one angle per
  joint. Left to run without a stop request, the playback thread makes \<open>N\<close> replay
  steps: after its entry and \<open>k\<close> iterations it has written exactly the first \<open>k\<close>
  snapshots to the servos, joint by joint and in recording order, and the arm state is
  the \<open>k\<close>-th snapshot. Two quanta later (the entry, the \<open>N\<close> steps and the end of the
  loop) the thread has returned, all \<open>N\<close> snapshots have been written in order and the
  arm state is the last snapshot. The writes are absolute: playback stores and writes
  the recorded angles themselves (\<open>N\<close> steps of one servo write per joint).
\<close>

theorem playback_fidelity:
  assumes "well_formed s" and "\<not> is_recording s" and "\<not> stop_event s" and "threads s = []"
    and "set moves \<subseteq> set movement_keys" and "moves \<noteq> []"
  shows "\<exists>s1 s2.
      exec (Command ''r'' # map Command moves @ [Command ''o'', Command ''p'']) s = Some s1
    \<and> length (recorded_path s1) = length moves
    \<and> list_all (\<lambda>snapshot. map fst snapshot = map fst NEUTRAL_ANGLES) (recorded_path s1)
    \<and> (\<forall>k<length moves. \<exists>sk.
          exec (Command ''r'' # map Command (take (Suc k) moves)) s = Some sk
          \<and> current_angles sk = recorded_path s1 ! k)
    \<and> (\<forall>k\<le>length moves. \<exists>sk.
          exec (replicate (Suc k) (Run 0)) s1 = Some sk
          \<and> hw_writes sk = hw_writes s1 @ concat (take k (recorded_path s1))
          \<and> (0 < k \<longrightarrow> current_angles sk = recorded_path s1 ! (k - 1)))
    \<and> exec (replicate (length moves + 2) (Run 0)) s1 = Some s2
    \<and> hw_writes s2 = hw_writes s1 @ concat (recorded_path s1)
    \<and> current_angles s2 = last (recorded_path s1)
    \<and> threads s2 = []"
proof -
  from record_then_play [OF assms(1-5)] obtain s1 where
    s1: "exec (Command ''r'' # map Command moves @ [Command ''o'', Command ''p'']) s = Some s1"
      "well_formed s1" "\<not> stop_event s1" "threads s1 = [Playback Playback_entry]"
      "length (recorded_path s1) = length moves"
    and trace: "\<forall>k<length moves. \<exists>sk.
          exec (Command ''r'' # map Command (take (Suc k) moves)) s = Some sk
          \<and> current_angles sk = recorded_path s1 ! k"
    by blast
  from s1(5) assms(6) have nonempty: "recorded_path s1 \<noteq> []"
    by auto
  have prefix: "\<exists>sk. exec (replicate (Suc k) (Run 0)) s1 = Some sk
          \<and> hw_writes sk = hw_writes s1 @ concat (take k (recorded_path s1))
          \<and> (0 < k \<longrightarrow> current_angles sk = recorded_path s1 ! (k - 1))"
    if "k \<le> length moves" for k
    using that s1(5) by (simp add: playback_run_prefix [OF s1(2-4) nonempty] del: replicate.simps)
  have complete: "\<exists>s2. exec (replicate (length moves + 2) (Run 0)) s1 = Some s2
    \<and> hw_writes s2 = hw_writes s1 @ concat (recorded_path s1)
    \<and> current_angles s2 = last (recorded_path s1) \<and> threads s2 = []"
    using playback_run_complete [OF s1(2-4) nonempty] s1(5) by (simp del: replicate.simps)
  from s1(2) have "list_all (\<lambda>snapshot. map fst snapshot = map fst NEUTRAL_ANGLES) (recorded_path s1)"
    by (simp add: well_formed_def)
  with s1(1,5) trace prefix complete show ?thesis
    by blast
qed

theorem playback_fidelity_witness:
  "\<exists>s1 s2.
      exec [Command ''r'', Command ''up'', Command ''up'', Command ''o'', Command ''p''] initial_state = Some s1
    \<and> length (recorded_path s1) = 2
    \<and> exec [Run 0, Run 0, Run 0, Run 0] s1 = Some s2
    \<and> hw_writes s2 = hw_writes s1 @ concat (recorded_path s1)
    \<and> length (hw_writes s2) = length (hw_writes s1) + 2 * 7
    \<and> current_angles s2 = last (recorded_path s1)
    \<and> map_of (current_angles s2) ''shoulder'' = Some 170
    \<and> threads s2 = []"
proof -
  have start: "\<not> is_recording initial_state" "\<not> stop_event initial_state" "threads initial_state = []"
    by (simp_all add: initial_state_eq)
  have moves: "set [''up'', ''up''] \<subseteq> set movement_keys" "[''up'', ''up''] \<noteq> []"
    by (simp_all add: movement_keys_def)
  from playback_fidelity [OF well_formed_initial start moves] obtain s1 s2 where
    run: "exec (Command ''r'' # map Command [''up'', ''up''] @ [Command ''o'', Command ''p'']) initial_state = Some s1"
    and play: "exec (replicate (length [''up'', ''up''] + 2) (Run 0)) s1 = Some s2"
      "hw_writes s2 = hw_writes s1 @ concat (recorded_path s1)"
      "current_angles s2 = last (recorded_path s1)" "threads s2 = []"
    by blast
  have four: "replicate (length [''up'', ''up''] + 2) (Run 0) = [Run 0, Run 0, Run 0, Run 0]"
    by simp
  have run': "exec [Command ''r'', Command ''up'', Command ''up'', Command ''o'', Command ''p''] initial_state = Some s1"
    using run by (simp del: exec.simps)
  then have path: "recorded_path s1 =
      [AList.update ''shoulder'' 175 NEUTRAL_ANGLES, AList.update ''shoulder'' 170 NEUTRAL_ANGLES]"
    by (auto simp: two_moves_recorded simp del: exec.simps)
  have lengths: "length (AList.update ''shoulder'' 175 NEUTRAL_ANGLES) = 7"
      "length (AList.update ''shoulder'' 170 NEUTRAL_ANGLES) = 7"
    by (simp_all add: NEUTRAL_ANGLES_def)
  from play(1) have "exec [Run 0, Run 0, Run 0, Run 0] s1 = Some s2"
    by (simp only: four)
  with run' play(2-4) path lengths show ?thesis
    by (intro exI [of _ s1] exI [of _ s2]) (simp add: update_conv' del: exec.simps replicate.simps)
qed

text \<open>
  Claim C5. Let a playback thread start on a trajectory of more than \<open>k \<ge> 1\<close>
  snapshots and run its entry and \<open>k\<close> iterations: the first \<open>k\<close> snapshots are
  written and the arm state is snapshot \<open>k\<close>. If the stop event is set now, the thread's
  next quantum finds it set before step \<open>k + 1\<close>: it writes nothing, prints "Playback
  interrupted." (followed by the closing line and the status line that end every
  playback) and returns; the arm state is still snapshot \<open>k\<close>, and no later quantum
  changes anything.
\<close>

theorem playback_cancellation:
  assumes "well_formed s" and "\<not> stop_event s" and "threads s = [Playback Playback_entry]"
    and "0 < k" and "k < length (recorded_path s)"
  shows "\<exists>sk s' status.
      exec (replicate (Suc k) (Run 0)) s = Some sk
    \<and> current_angles sk = recorded_path s ! (k - 1)
    \<and> hw_writes sk = hw_writes s @ concat (take k (recorded_path s))
    \<and> threads sk = [Playback (Playback_loop k)]
    \<and> exec [Escape, Run 0] sk = Some s'
    \<and> hw_writes s' = hw_writes sk
    \<and> current_angles s' = recorded_path s ! (k - 1)
    \<and> printed s' = printed sk @ [Playback_interrupted, Playback_finished, status]
    \<and> threads s' = []
    \<and> (\<forall>n m. exec (replicate m (Run n)) s' = Some s')"
proof -
  from assms(5) have nonempty: "recorded_path s \<noteq> []" and le: "k \<le> length (recorded_path s)"
    by auto
  let ?sk = "s\<lparr>current_angles := (if k = 0 then current_angles s else recorded_path s ! (k - 1)),
            hw_writes := hw_writes s @ concat (take k (recorded_path s)),
            printed := printed s @ [Starting_playback],
            threads := [Playback (Playback_loop k)]\<rparr>"
  let ?s' = "s\<lparr>current_angles := (if k = 0 then current_angles s else recorded_path s ! (k - 1)),
            stop_event := True,
            hw_writes := hw_writes s @ concat (take k (recorded_path s)),
            printed := printed s @
              [Starting_playback, Playback_interrupted, Playback_finished,
               Status (map snd (if k = 0 then current_angles s else recorded_path s ! (k - 1)))
                 (if is_recording s then Some (length (recorded_path s)) else None)],
            threads := []\<rparr>"
  have run: "exec (replicate (Suc k) (Run 0)) s = Some ?sk"
    by (rule playback_run_prefix [OF assms(1-3) nonempty le])
  have "exec (replicate (Suc k) (Run 0) @ [Escape, Run 0]) s = Some ?s'"
    by (rule playback_run_cancelled [OF assms(1-3,5)])
  with run have cancel: "exec [Escape, Run 0] ?sk = Some ?s'"
    by (simp only: exec_append) simp
  have idle: "\<forall>n m. exec (replicate m (Run n)) ?s' = Some ?s'"
    by (simp add: exec_Run_idle)
  from run cancel idle assms(4) show ?thesis
    by (intro exI [of _ ?sk] exI [of _ ?s']) (simp del: replicate.simps exec.simps)
qed

theorem playback_cancellation_witness:
  "\<exists>s s'.
      exec [Command ''r'', Command ''up'', Command ''up'', Command ''o'', Command ''p''] initial_state = Some s
    \<and> length (recorded_path s) = 2
    \<and> exec [Run 0, Run 0, Escape, Run 0] s = Some s'
    \<and> hw_writes s' = hw_writes s @ recorded_path s ! 0
    \<and> map_of (current_angles s') ''shoulder'' = Some 175
    \<and> Playback_interrupted \<in> set (printed s')
    \<and> threads s' = []"
proof -
  define s where
    "s = initial_state\<lparr>current_angles := AList.update ''shoulder'' 170 NEUTRAL_ANGLES,
        recorded_path :=
          [AList.update ''shoulder'' 175 NEUTRAL_ANGLES, AList.update ''shoulder'' 170 NEUTRAL_ANGLES],
        hw_writes := NEUTRAL_ANGLES @ [(''shoulder'', 175), (''shoulder'', 170)],
        printed := printed initial_state @
          [Recording_started, Status [180, 0, 180, 100, 75, 90, 80] (Some 0),
           Status [180, 0, 175, 100, 75, 90, 80] (Some 1),
           Status [180, 0, 170, 100, 75, 90, 80] (Some 2), Recording_stopped 2,
           Status [180, 0, 170, 100, 75, 90, 80] None,
           Status [180, 0, 170, 100, 75, 90, 80] None],
        threads := [Playback Playback_entry]\<rparr>"
  have recorded: "exec [Command ''r'', Command ''up'', Command ''up'', Command ''o'', Command ''p''] initial_state = Some s"
    unfolding s_def by (rule two_moves_recorded)
  have wf: "well_formed s"
    by (simp add: s_def well_formed_def initial_state_eq NEUTRAL_ANGLES_def)
  have ready: "\<not> stop_event s" "threads s = [Playback Playback_entry]"
    by (simp_all add: s_def initial_state_eq)
  have path: "recorded_path s =
      [AList.update ''shoulder'' 175 NEUTRAL_ANGLES, AList.update ''shoulder'' 170 NEUTRAL_ANGLES]"
    by (simp add: s_def)
  have k: "0 < (1::nat)" "1 < length (recorded_path s)"
    by (simp_all add: path)
  from playback_cancellation [OF wf ready k] obtain sk s' status where
    first: "exec (replicate (Suc 1) (Run 0)) s = Some sk"
    and cancel: "exec [Escape, Run 0] sk = Some s'"
    and after: "hw_writes sk = hw_writes s @ concat (take 1 (recorded_path s))"
      "hw_writes s' = hw_writes sk" "current_angles s' = recorded_path s ! (1 - 1)"
      "printed s' = printed sk @ [Playback_interrupted, Playback_finished, status]"
      "threads s' = []"
    by blast
  have "exec ([Run 0, Run 0] @ [Escape, Run 0]) s = Some s'"
    using first cancel by (simp only: exec_append) (simp del: exec.simps add: numeral_2_eq_2)
  then have "exec [Run 0, Run 0, Escape, Run 0] s = Some s'"
    by (simp del: exec.simps)
  with recorded after path show ?thesis
    by (intro exI [of _ s] exI [of _ s']) (simp add: update_conv' del: exec.simps)
qed

subsection \<open>Return to neutral\<close>

lemma neutral_in_range:
  assumes "map_of NEUTRAL_ANGLES name = Some neutral"
  shows "0 \<le> neutral \<and> neutral \<le> 180"
  using in_range_neutral map_of_SomeD [OF assms]
  by (auto simp: in_range_def list_all_iff)

lemma closer_simps [simp]:
  "closer [] = []"
  "closer ((name, current) # d) = (name, one_degree_closer name current) # closer d"
  by (simp_all add: closer_def)

lemma keys_closer [simp]: "map fst (closer d) = map fst d"
  by (induction d) auto

lemma tick_writes_simps [simp]:
  "tick_writes [] = []"
  "tick_writes ((name, current) # d) =
    (if away (name, current)
     then (name, one_degree_closer name current) # tick_writes d else tick_writes d)"
  by (simp_all add: tick_writes_def)

lemma lookup_after_prefix:
  "k \<notin> fst ` set pre \<Longrightarrow> map_of (pre @ (k, v) # ys) k = Some v"
  by (induction pre) auto

lemma neutral_tick_suffix:
  assumes "distinct (map fst (pre @ rest))"
    and "set (map fst rest) \<subseteq> set (map fst NEUTRAL_ANGLES)"
    and "set (map fst rest) \<subseteq> set (map fst (servos s))"
    and "current_angles s = pre @ rest"
    and "in_range rest"
  shows "neutral_tick (map fst rest) (pre @ rest) s =
    Some (pre @ closer rest,
          s\<lparr>current_angles := pre @ closer rest, hw_writes := hw_writes s @ tick_writes rest\<rparr>)"
  using assms
proof (induction rest arbitrary: pre s)
  case Nil
  then show ?case by simp
next
  case (Cons item rest)
  obtain k c where item: "item = (k, c)"
    by (cases item)
  from Cons.prems(1) item have fresh: "k \<notin> fst ` set pre"
    by auto
  then have current: "map_of (pre @ item # rest) k = Some c"
    unfolding item by (rule lookup_after_prefix)
  from Cons.prems(2) item have "k \<in> fst ` set NEUTRAL_ANGLES"
    by simp
  then have "\<exists>n. map_of NEUTRAL_ANGLES k = Some n"
    by (auto dest: weak_map_of_SomeI)
  then obtain n where neutral: "map_of NEUTRAL_ANGLES k = Some n" ..
  note n_range = neutral_in_range [OF neutral]
  from Cons.prems(5) item have c_range: "0 \<le> c" "c \<le> 180" and rest_range: "in_range rest"
    by (simp_all add: in_range_def)
  from Cons.prems(3) item have configured: "k \<in> set (map fst (servos s))"
    by simp
  have head: "neutral_tick (map fst (item # rest)) (pre @ item # rest) s =
      (if c \<noteq> n then
         neutral_tick (map fst rest)
           (AList.update k (if c < n then c + 1 else c - 1) (pre @ item # rest))
           (snd (move_servo k (if c < n then c + 1 else c - 1) s))
       else neutral_tick (map fst rest) (pre @ item # rest) s)"
    using current neutral by (simp add: item Let_def del: map_of_append)
  show ?case
  proof (cases "c = n")
    case True
    have "neutral_tick (map fst rest) ((pre @ [(k, c)]) @ rest) s =
      Some ((pre @ [(k, c)]) @ closer rest,
          s\<lparr>current_angles := (pre @ [(k, c)]) @ closer rest,
            hw_writes := hw_writes s @ tick_writes rest\<rparr>)"
      using Cons.prems by (intro Cons.IH) (simp_all add: item rest_range)
    with True neutral head show ?thesis
      by (simp add: item one_degree_closer_def away_def)
  next
    case False
    define new where "new = (if c < n then c + 1 else c - 1)"
    have new: "one_degree_closer k c = new"
      using False by (simp add: new_def one_degree_closer_def neutral)
    from False c_range n_range have clamp: "max 0 (min 180 new) = new"
      by (auto simp: new_def)
    let ?s = "s\<lparr>current_angles := (pre @ [(k, new)]) @ rest, hw_writes := hw_writes s @ [(k, new)]\<rparr>"
    have moved: "snd (move_servo k new s) = ?s"
      using configured fresh
      by (simp add: move_servo_def servo_write_def clamp Cons.prems(4) item update_after_prefix)
    have temp: "AList.update k new (pre @ item # rest) = (pre @ [(k, new)]) @ rest"
      using fresh by (simp add: item update_after_prefix)
    have "neutral_tick (map fst rest) ((pre @ [(k, new)]) @ rest) ?s =
      Some ((pre @ [(k, new)]) @ closer rest,
          ?s\<lparr>current_angles := (pre @ [(k, new)]) @ closer rest,
            hw_writes := hw_writes ?s @ tick_writes rest\<rparr>)"
      using Cons.prems by (intro Cons.IH) (simp_all add: item rest_range)
    moreover from False head have "neutral_tick (map fst (item # rest)) (pre @ item # rest) s =
      neutral_tick (map fst rest) (AList.update k new (pre @ item # rest)) (snd (move_servo k new s))"
      by (simp add: new_def)
    ultimately have "neutral_tick (map fst (item # rest)) (pre @ item # rest) s =
      Some ((pre @ [(k, new)]) @ closer rest,
          ?s\<lparr>current_angles := (pre @ [(k, new)]) @ closer rest,
            hw_writes := hw_writes ?s @ tick_writes rest\<rparr>)"
      by (simp only: moved temp)
    then show ?thesis
      using False by (simp add: item neutral new away_def)
  qed
qed

lemma away_from_neutral_suffix:
  assumes "distinct (map fst (pre @ rest))"
    and "set (map fst rest) \<subseteq> set (map fst NEUTRAL_ANGLES)"
  shows "away_from_neutral (map fst rest) (pre @ rest) = Some (filter away rest \<noteq> [])"
  using assms
proof (induction rest arbitrary: pre)
  case Nil
  then show ?case by simp
next
  case (Cons item rest)
  obtain k c where item: "item = (k, c)"
    by (cases item)
  from Cons.prems(1) item have fresh: "k \<notin> fst ` set pre"
    by auto
  then have current: "map_of (pre @ (k, c) # rest) k = Some c"
    by (rule lookup_after_prefix)
  from Cons.prems(2) item have "k \<in> fst ` set NEUTRAL_ANGLES"
    by simp
  then have "\<exists>n. map_of NEUTRAL_ANGLES k = Some n"
    by (auto dest: weak_map_of_SomeI)
  then obtain n where neutral: "map_of NEUTRAL_ANGLES k = Some n" ..
  have "away_from_neutral (map fst rest) ((pre @ [(k, c)]) @ rest) = Some (filter away rest \<noteq> [])"
    using Cons.prems by (intro Cons.IH) (simp_all add: item)
  with current neutral show ?case
    by (cases "c = n") (simp_all add: item away_def del: map_of_append)
qed

lemma distance_closer: "distance (closer d) + length (filter away d) = distance d"
proof (induction d)
  case Nil
  then show ?case by (simp add: distance_def)
next
  case (Cons item d)
  obtain k c where item: "item = (k, c)"
    by (cases item)
  have "distance (item # d) =
    (case map_of NEUTRAL_ANGLES k of None \<Rightarrow> 0 | Some n \<Rightarrow> nat \<bar>c - n\<bar>) + distance d"
    by (simp add: distance_def item)
  moreover have "distance (closer (item # d)) =
    (case map_of NEUTRAL_ANGLES k of None \<Rightarrow> 0 | Some n \<Rightarrow> nat \<bar>one_degree_closer k c - n\<bar>)
      + distance (closer d)"
    by (simp add: distance_def item)
  moreover have "(case map_of NEUTRAL_ANGLES k of None \<Rightarrow> 0 | Some n \<Rightarrow> nat \<bar>one_degree_closer k c - n\<bar>)
      + (if away item then 1 else 0) =
    (case map_of NEUTRAL_ANGLES k of None \<Rightarrow> 0 | Some n \<Rightarrow> nat \<bar>c - n\<bar>)"
    by (auto simp: one_degree_closer_def away_def item split: option.splits)
  ultimately show ?case
    using Cons.IH by (cases "away item") simp_all
qed

lemma neutral_tick_all:
  assumes "servos s = SERVO_PINS" "map fst (current_angles s) = map fst NEUTRAL_ANGLES"
    and "in_range (current_angles s)"
  shows "neutral_tick (map fst SERVO_PINS) (current_angles s) s =
    Some (closer (current_angles s),
          s\<lparr>current_angles := closer (current_angles s),
            hw_writes := hw_writes s @ tick_writes (current_angles s)\<rparr>)"
proof -
  have "neutral_tick (map fst (current_angles s)) ([] @ current_angles s) s =
    Some ([] @ closer (current_angles s),
          s\<lparr>current_angles := [] @ closer (current_angles s),
            hw_writes := hw_writes s @ tick_writes (current_angles s)\<rparr>)"
    using assms joint_names_distinct by (intro neutral_tick_suffix) (simp_all add: joint_names)
  with assms(2) show ?thesis
    by (simp add: joint_names)
qed

lemma away_from_neutral_all:
  assumes "map fst d = map fst NEUTRAL_ANGLES"
  shows "away_from_neutral (map fst SERVO_PINS) d = Some (filter away d \<noteq> [])"
proof -
  have "away_from_neutral (map fst d) ([] @ d) = Some (filter away d \<noteq> [])"
    using assms joint_names_distinct by (intro away_from_neutral_suffix) simp_all
  with assms show ?thesis
    by (simp add: joint_names)
qed

lemma one_degree_closer_in_range:
  assumes "0 \<le> c" "c \<le> 180"
  shows "0 \<le> one_degree_closer name c \<and> one_degree_closer name c \<le> 180"
proof (cases "map_of NEUTRAL_ANGLES name")
  case None
  with assms show ?thesis
    by (simp add: one_degree_closer_def)
next
  case (Some n)
  with assms neutral_in_range [OF Some] show ?thesis
    by (auto simp: one_degree_closer_def)
qed

lemma in_range_closer: "in_range d \<Longrightarrow> in_range (closer d)"
  by (induction d) (auto simp: in_range_def one_degree_closer_in_range)

lemma distance_zero: "distance d = 0 \<longleftrightarrow> filter away d = []"
  by (induction d) (auto simp: distance_def away_def split: option.splits)

lemma at_neutral:
  assumes "map fst d = map fst NEUTRAL_ANGLES" "filter away d = []"
  shows "d = NEUTRAL_ANGLES"
proof (rule same_keys_same_values [OF assms(1)])
  show distinct: "distinct (map fst d)"
    using assms(1) joint_names_distinct by simp
  fix k assume "k \<in> set (map fst d)"
  then obtain c where c: "(k, c) \<in> set d"
    by auto
  from assms(1) c have "k \<in> fst ` set NEUTRAL_ANGLES"
    by (metis image_eqI fst_conv list.set_map)
  then have "\<exists>n. map_of NEUTRAL_ANGLES k = Some n"
    by (auto dest: weak_map_of_SomeI)
  then obtain n where n: "map_of NEUTRAL_ANGLES k = Some n" ..
  from assms(2) c have "\<not> away (k, c)"
    by (auto simp: filter_empty_conv)
  with n have "c = n"
    by (simp add: away_def)
  moreover from distinct c have "map_of d k = Some c"
    by simp
  ultimately show "map_of d k = map_of NEUTRAL_ANGLES k"
    using n by simp
qed

lemma neutral_is_fixed:
  "closer NEUTRAL_ANGLES = NEUTRAL_ANGLES" "tick_writes NEUTRAL_ANGLES = []"
  "filter away NEUTRAL_ANGLES = []"
  by (simp_all add: NEUTRAL_ANGLES_def one_degree_closer_def away_def)

lemma home_entry_quantum:
  assumes "\<not> is_recording s" "threads s = [Home Home_entry]"
  shows "step (Run 0) s =
    Some (s\<lparr>printed := printed s @ [Returning_to_neutral],
            threads := [Home (Home_loop (current_angles s))]\<rparr>)"
  using assms by (simp add: say_def)

lemma home_loop_quantum:
  assumes "homing s" "threads s \<noteq> []"
  shows "step (Run 0) s =
    Some (if filter away (current_angles s) \<noteq> [] then
            s\<lparr>current_angles := closer (current_angles s),
              hw_writes := hw_writes s @ tick_writes (current_angles s),
              threads := [Home (Home_loop (closer (current_angles s)))]\<rparr>
          else
            s\<lparr>printed := printed s @
                [Returned_to_neutral,
                 Status (map snd (current_angles s))
                   (if is_recording s then Some (length (recorded_path s)) else None)],
              threads := []\<rparr>)"
proof -
  from assms have s: "servos s = SERVO_PINS" "map fst (current_angles s) = map fst NEUTRAL_ANGLES"
      "in_range (current_angles s)" "\<not> stop_event s"
      "threads s = [Home (Home_loop (current_angles s))]"
    by (auto simp: homing_def)
  have "map fst (current_angles (say Returned_to_neutral s)) = map fst NEUTRAL_ANGLES"
    using s(2) by (simp add: say_def)
  note status = print_status_eq [OF this]
  show ?thesis
    using s(4,5)
    by (simp add: away_from_neutral_all [OF s(2)] neutral_tick_all [OF s(1-3)]
        return_to_neutral_slowly_finish_def status)
      (simp add: say_def)
qed

lemma homing_quantum:
  assumes "homing s"
  shows "\<exists>s'. step (Run 0) s = Some s' \<and> homing s'
    \<and> current_angles s' = closer (current_angles s)
    \<and> hw_writes s' = hw_writes s @ tick_writes (current_angles s)
    \<and> distance (current_angles s') + length (filter away (current_angles s)) =
        distance (current_angles s)
    \<and> (threads s' = [] \<longleftrightarrow> current_angles s = NEUTRAL_ANGLES)"
proof (cases "threads s = []")
  case True
  with assms have "current_angles s = NEUTRAL_ANGLES"
    by (auto simp: homing_def)
  with True assms distance_closer [of NEUTRAL_ANGLES] show ?thesis
    by (simp add: neutral_is_fixed)
next
  case False
  note step = home_loop_quantum [OF assms False]
  from assms have keys: "map fst (current_angles s) = map fst NEUTRAL_ANGLES"
    by (simp add: homing_def)
  show ?thesis
  proof (cases "filter away (current_angles s) = []")
    case True
    then have "current_angles s = NEUTRAL_ANGLES"
      using keys by (intro at_neutral)
    with True assms step distance_closer [of NEUTRAL_ANGLES] show ?thesis
      by (simp add: neutral_is_fixed homing_def)
  next
    case away: False
    then have "current_angles s \<noteq> NEUTRAL_ANGLES"
      by (auto simp: neutral_is_fixed)
    with away assms step distance_closer [of "current_angles s"] show ?thesis
      by (simp add: homing_def in_range_closer)
  qed
qed

lemma homing_run:
  assumes "well_formed s" "in_range (current_angles s)" "\<not> is_recording s" "\<not> stop_event s"
    and "threads s = [Home Home_entry]"
  shows "\<exists>sk. exec (replicate (Suc k) (Run 0)) s = Some sk \<and> homing sk
    \<and> threads sk \<noteq> [Home Home_entry]
    \<and> distance (current_angles sk) \<le> distance (current_angles s) - k"
proof (induction k)
  case 0
  from assms show ?case
    by (simp add: home_entry_quantum homing_def well_formed_def del: step.simps)
next
  case (Suc k)
  then obtain sk where sk: "exec (replicate (Suc k) (Run 0)) s = Some sk" "homing sk"
      "distance (current_angles sk) \<le> distance (current_angles s) - k"
    by blast
  from homing_quantum [OF sk(2)] obtain s' where
    s': "step (Run 0) sk = Some s'" "homing s'"
      "distance (current_angles s') + length (filter away (current_angles sk)) =
        distance (current_angles sk)"
    by blast
  have "distance (current_angles s') \<le> distance (current_angles sk) - 1"
  proof (cases "filter away (current_angles sk) = []")
    case True
    then have "distance (current_angles sk) = 0"
      by (simp add: distance_zero)
    with s'(3) show ?thesis
      by simp
  next
    case False
    then have "0 < length (filter away (current_angles sk))"
      by simp
    with s'(3) show ?thesis
      by linarith
  qed
  with sk(3) have "distance (current_angles s') \<le> distance (current_angles s) - Suc k"
    by linarith
  moreover have "exec (replicate (Suc (Suc k)) (Run 0)) s = Some s'"
    using sk(1) s'(1) by (simp only: exec_replicate_Suc [of "Suc k"]) simp
  moreover from s'(2) have "threads s' \<noteq> [Home Home_entry]"
    by (auto simp: homing_def)
  ultimately show ?case
    using s'(2) by blast
qed

text \<open>
  Claim C4. Let homing start (\<^verbatim>\<open>'h'\<close>) from any arm state with every angle in
  \<open>[0, 180]\<close>, with no recording session and no stop request, and run on its own. Its
  first quantum copies the arm state. Every later quantum is one tick: each joint away
  from neutral moves exactly one degree toward its neutral angle (by 1, not by
  \<^verbatim>\<open>INCREMENT\<close>) and is written to its servo, each joint at neutral is left alone.
  A tick lowers the sum of the distances from neutral by the number of joints that were
  away: it never raises it, and lowers it strictly as long as some joint is away. The
  thread returns exactly when every joint is at neutral, and it does so after at most
  the initial sum plus two quanta.
\<close>

theorem homing_converges:
  assumes "well_formed s" and "in_range (current_angles s)"
    and "\<not> is_recording s" and "\<not> stop_event s" and "threads s = [Home Home_entry]"
  shows "(\<exists>s0. step (Run 0) s = Some s0 \<and> current_angles s0 = current_angles s
            \<and> hw_writes s0 = hw_writes s
            \<and> threads s0 = [Home (Home_loop (current_angles s))])
    \<and> (\<forall>k. \<exists>sk sk'.
          exec (replicate (Suc k) (Run 0)) s = Some sk \<and> step (Run 0) sk = Some sk'
        \<and> in_range (current_angles sk)
        \<and> current_angles sk' = closer (current_angles sk)
        \<and> hw_writes sk' = hw_writes sk @ tick_writes (current_angles sk)
        \<and> distance (current_angles sk') + length (filter away (current_angles sk)) =
            distance (current_angles sk)
        \<and> (current_angles sk \<noteq> NEUTRAL_ANGLES \<longrightarrow>
              distance (current_angles sk') < distance (current_angles sk))
        \<and> (threads sk' = [] \<longleftrightarrow> current_angles sk = NEUTRAL_ANGLES))
    \<and> (\<forall>k \<ge> distance (current_angles s) + 2. \<exists>s'.
          exec (replicate k (Run 0)) s = Some s' \<and> threads s' = []
        \<and> current_angles s' = NEUTRAL_ANGLES \<and> distance (current_angles s') = 0
        \<and> Returned_to_neutral \<in> set (printed s'))"
proof (intro conjI allI impI)
  show "\<exists>s0. step (Run 0) s = Some s0 \<and> current_angles s0 = current_angles s
            \<and> hw_writes s0 = hw_writes s
            \<and> threads s0 = [Home (Home_loop (current_angles s))]"
    using assms(3,5) by (simp add: home_entry_quantum del: step.simps)
next
  fix k
  from homing_run [OF assms, of k] obtain sk where
    sk: "exec (replicate (Suc k) (Run 0)) s = Some sk" "homing sk"
    by blast
  from homing_quantum [OF sk(2)] obtain sk' where
    sk': "step (Run 0) sk = Some sk'"
      "current_angles sk' = closer (current_angles sk)"
      "hw_writes sk' = hw_writes sk @ tick_writes (current_angles sk)"
      "distance (current_angles sk') + length (filter away (current_angles sk)) =
        distance (current_angles sk)"
      "threads sk' = [] \<longleftrightarrow> current_angles sk = NEUTRAL_ANGLES"
    by blast
  from sk(2) have keys: "map fst (current_angles sk) = map fst NEUTRAL_ANGLES"
      and range: "in_range (current_angles sk)"
    by (simp_all add: homing_def)
  have "distance (current_angles sk') < distance (current_angles sk)"
    if "current_angles sk \<noteq> NEUTRAL_ANGLES"
  proof -
    from that keys have "filter away (current_angles sk) \<noteq> []"
      by (auto dest: at_neutral)
    then have "0 < length (filter away (current_angles sk))"
      by simp
    with sk'(4) show ?thesis
      by linarith
  qed
  with sk(1) sk' range
  show "\<exists>sk sk'.
          exec (replicate (Suc k) (Run 0)) s = Some sk \<and> step (Run 0) sk = Some sk'
        \<and> in_range (current_angles sk)
        \<and> current_angles sk' = closer (current_angles sk)
        \<and> hw_writes sk' = hw_writes sk @ tick_writes (current_angles sk)
        \<and> distance (current_angles sk') + length (filter away (current_angles sk)) =
            distance (current_angles sk)
        \<and> (current_angles sk \<noteq> NEUTRAL_ANGLES \<longrightarrow>
              distance (current_angles sk') < distance (current_angles sk))
        \<and> (threads sk' = [] \<longleftrightarrow> current_angles sk = NEUTRAL_ANGLES)"
    by blast
next
  fix k
  assume "distance (current_angles s) + 2 \<le> k"
  then obtain j where k: "k = Suc (Suc j)" and j: "distance (current_angles s) \<le> j"
    by (metis add_2_eq_Suc' le_Suc_ex add_Suc_right add_Suc le_add1 add.commute)
  from homing_run [OF assms, of j] obtain sj where
    sj: "exec (replicate (Suc j) (Run 0)) s = Some sj" "homing sj"
      "distance (current_angles sj) \<le> distance (current_angles s) - j"
    by blast
  from sj(3) j have "filter away (current_angles sj) = []"
    by (simp add: distance_zero [symmetric])
  moreover from sj(2) have "map fst (current_angles sj) = map fst NEUTRAL_ANGLES"
    by (simp add: homing_def)
  ultimately have neutral: "current_angles sj = NEUTRAL_ANGLES"
    by (intro at_neutral)
  from homing_quantum [OF sj(2)] neutral obtain s' where
    s': "step (Run 0) sj = Some s'" "homing s'" "threads s' = []"
    by auto
  then have finished: "current_angles s' = NEUTRAL_ANGLES" "Returned_to_neutral \<in> set (printed s')"
    by (auto simp: homing_def)
  have "exec (replicate k (Run 0)) s = Some s'"
    using sj(1) s'(1) unfolding k by (simp only: exec_replicate_Suc [of "Suc j"]) simp
  with s'(3) finished
  show "\<exists>s'. exec (replicate k (Run 0)) s = Some s' \<and> threads s' = []
        \<and> current_angles s' = NEUTRAL_ANGLES \<and> distance (current_angles s') = 0
        \<and> Returned_to_neutral \<in> set (printed s')"
    by (simp add: distance_zero neutral_is_fixed)
qed

theorem homing_converges_witness:
  "\<exists>s s'. exec [Command ''up'', Command ''h''] initial_state = Some s
     \<and> map_of (current_angles s) ''shoulder'' = Some 175
     \<and> distance (current_angles s) = 5
     \<and> exec (replicate 7 (Run 0)) s = Some s'
     \<and> threads s' = [] \<and> current_angles s' = NEUTRAL_ANGLES"
proof -
  define s where
    "s = initial_state\<lparr>current_angles := AList.update ''shoulder'' 175 NEUTRAL_ANGLES,
        hw_writes := NEUTRAL_ANGLES @ [(''shoulder'', 175)],
        printed := printed initial_state @
          [Status [180, 0, 175, 100, 75, 90, 80] None, Status [180, 0, 175, 100, 75, 90, 80] None],
        threads := [Home Home_entry]\<rparr>"
  have run: "exec [Command ''up'', Command ''h''] initial_state = Some s"
    by (simp add: s_def initial_state_eq run_defs NEUTRAL_ANGLES_def SERVO_PINS_def)
  have start: "well_formed s" "in_range (current_angles s)" "\<not> is_recording s" "\<not> stop_event s"
      "threads s = [Home Home_entry]"
    by (simp_all add: s_def initial_state_eq well_formed_def in_range_def NEUTRAL_ANGLES_def)
  have far: "distance (current_angles s) = 5"
    by (simp add: s_def distance_def NEUTRAL_ANGLES_def)
  then have "distance (current_angles s) + 2 \<le> 7"
    by simp
  with homing_converges [OF start] obtain s' where
    "exec (replicate 7 (Run 0)) s = Some s'" "threads s' = []" "current_angles s' = NEUTRAL_ANGLES"
    by blast
  moreover have "map_of (current_angles s) ''shoulder'' = Some 175"
    by (simp add: s_def update_conv')
  ultimately show ?thesis
    using run far by blast
qed

subsection \<open>A stop request after the last replay step\<close>

text \<open>
  The cancellation theorem is about a playback with steps left. When the stop event is
  set only after the last snapshot has been applied, the list iterator ends the loop
  before the event is looked at: the thread prints its closing line without "Playback
  interrupted.", and the arm state is the last snapshot.
\<close>

lemma playback_stop_after_last_step:
  assumes "well_formed s" "\<not> stop_event s" "threads s = [Playback Playback_entry]"
    and "recorded_path s \<noteq> []"
  shows "exec (replicate (Suc (length (recorded_path s))) (Run 0) @ [Escape, Run 0]) s =
    Some (s\<lparr>current_angles := last (recorded_path s),
            stop_event := True,
            hw_writes := hw_writes s @ concat (recorded_path s),
            printed := printed s @
              [Starting_playback, Playback_finished,
               Status (map snd (last (recorded_path s)))
                 (if is_recording s then Some (length (recorded_path s)) else None)],
            threads := []\<rparr>)"
proof -
  let ?n = "length (recorded_path s)"
  let ?s = "s\<lparr>current_angles := last (recorded_path s),
            hw_writes := hw_writes s @ concat (recorded_path s),
            printed := printed s @ [Starting_playback],
            threads := [Playback (Playback_loop ?n)]\<rparr>"
  from assms(4) have run: "exec (replicate (Suc ?n) (Run 0)) s = Some ?s"
    using playback_run_prefix [OF assms order_refl]
    by (simp add: last_conv_nth del: replicate.simps)
  have "map fst (current_angles (say Playback_finished (?s\<lparr>stop_event := True\<rparr>))) =
      map fst NEUTRAL_ANGLES"
    using assms(1,4) by (simp add: well_formed_def say_def list_all_iff)
  then have "step (Run 0) (?s\<lparr>stop_event := True\<rparr>) =
    Some (s\<lparr>current_angles := last (recorded_path s),
            stop_event := True,
            hw_writes := hw_writes s @ concat (recorded_path s),
            printed := printed s @
              [Starting_playback, Playback_finished,
               Status (map snd (last (recorded_path s)))
                 (if is_recording s then Some (length (recorded_path s)) else None)],
            threads := []\<rparr>)"
    by (simp add: playback_path_finish_def print_status_eq) (simp add: say_def)
  with run show ?thesis
    by (simp only: exec_append) simp
qed

subsection \<open>The model never raises\<close>

lemma well_formed_say [simp]: "well_formed (say m s) = well_formed s"
  by (simp add: well_formed_def say_def)

lemma well_formed_print_status:
  assumes "well_formed s"
  shows "\<exists>s'. print_status s = Some s' \<and> well_formed s'"
proof -
  from assms have "map fst (current_angles s) = map fst NEUTRAL_ANGLES"
    by (simp add: well_formed_def)
  from print_status_eq [OF this] assms show ?thesis
    by simp
qed

lemma well_formed_control:
  assumes "well_formed s" "command \<notin> set movement_keys"
  shows "\<exists>s'. process_command command s = Some s' \<and> well_formed s'"
  using assms
  by (simp add: movement_keys_def process_command_def record_if_movement_def
      print_instructions_def)
    (simp add: well_formed_def say_def)

lemma well_formed_process_command:
  assumes "well_formed s"
  shows "\<exists>s'. process_command command s = Some s' \<and> well_formed s'"
proof (cases "command \<in> set movement_keys")
  case True
  from movement_command [OF assms True] show ?thesis
    by blast
next
  case False
  with assms show ?thesis
    by (rule well_formed_control)
qed

lemma well_formed_move_servo:
  assumes "well_formed s" "name \<in> set (map fst NEUTRAL_ANGLES)"
  shows "well_formed (snd (move_servo name angle s))"
proof -
  from assms have "name \<in> set (map fst (current_angles s))"
    by (simp add: well_formed_def)
  then have "map fst (AList.update name (max 0 (min 180 angle)) (current_angles s)) =
      map fst (current_angles s)"
    by (rule keys_update_same)
  with assms show ?thesis
    by (simp add: move_servo_def servo_write_def say_def Let_def well_formed_def)
qed

lemma well_formed_neutral_tick:
  assumes "well_formed s" "set names \<subseteq> set (map fst NEUTRAL_ANGLES)"
    and "map fst temp = map fst NEUTRAL_ANGLES"
  shows "\<exists>temp' s'. neutral_tick names temp s = Some (temp', s') \<and> well_formed s'
    \<and> map fst temp' = map fst NEUTRAL_ANGLES \<and> threads s' = threads s"
  using assms
proof (induction names arbitrary: temp s)
  case Nil
  then show ?case by simp
next
  case (Cons name names)
  from Cons.prems have name: "name \<in> set (map fst NEUTRAL_ANGLES)" "name \<in> set (map fst temp)"
    by simp_all
  then have "\<exists>c. map_of temp name = Some c" "\<exists>n. map_of NEUTRAL_ANGLES name = Some n"
    by (auto dest: weak_map_of_SomeI)
  then obtain c n where c: "map_of temp name = Some c" and n: "map_of NEUTRAL_ANGLES name = Some n"
    by blast
  show ?case
  proof (cases "c = n")
    case True
    with Cons.IH [of s temp] Cons.prems c n show ?thesis
      by simp
  next
    case False
    define new where "new = (if c < n then c + 1 else c - 1)"
    have "well_formed (snd (move_servo name new s))"
      using Cons.prems(1) name(1) by (rule well_formed_move_servo)
    moreover have "map fst (AList.update name new temp) = map fst NEUTRAL_ANGLES"
      using name(2) Cons.prems(3) by (simp add: keys_update_same)
    moreover have "threads (snd (move_servo name new s)) = threads s"
      by (simp add: move_servo_def servo_write_def say_def Let_def)
    ultimately have "\<exists>temp' s'. neutral_tick names (AList.update name new temp) (snd (move_servo name new s)) =
        Some (temp', s') \<and> well_formed s' \<and> map fst temp' = map fst NEUTRAL_ANGLES
        \<and> threads s' = threads s"
      using Cons.IH [of "snd (move_servo name new s)" "AList.update name new temp"] Cons.prems(2)
      by simp
    with False c n show ?thesis
      by (simp add: new_def Let_def)
  qed
qed

lemma away_from_neutral_defined:
  assumes "set names \<subseteq> set (map fst NEUTRAL_ANGLES)" "map fst temp = map fst NEUTRAL_ANGLES"
  shows "\<exists>b. away_from_neutral names temp = Some b"
  using assms
proof (induction names)
  case Nil
  show ?case by (simp add: exI [of _ False])
next
  case (Cons name names)
  then have "name \<in> fst ` set NEUTRAL_ANGLES" "name \<in> fst ` set temp"
    by (simp_all flip: set_map)
  then have "\<exists>c. map_of temp name = Some c" "\<exists>n. map_of NEUTRAL_ANGLES name = Some n"
    by (auto dest: weak_map_of_SomeI)
  then obtain c n where "map_of temp name = Some c" "map_of NEUTRAL_ANGLES name = Some n"
    by blast
  moreover from Cons obtain b where "away_from_neutral names temp = Some b"
    by auto
  ultimately show ?case
    by (cases "c = n") auto
qed

text \<open>
  What a quantum leaves of the thread list: the quantum of one thread does not start
  or end any other.
\<close>

lemma well_formed_playback_path:
  assumes "well_formed s"
  shows "\<exists>pc' s'. playback_path pc s = Some (pc', s') \<and> well_formed s' \<and> threads s' = threads s"
proof (cases pc)
  case Playback_entry
  with assms show ?thesis
    by (simp add: say_def well_formed_def)
next
  case (Playback_loop i)
  have finish: "\<exists>s'. playback_path_finish t = Some s' \<and> well_formed s' \<and> threads s' = threads t"
    if "well_formed t" for t
  proof -
    from that have "map fst (current_angles (say Playback_finished t)) = map fst NEUTRAL_ANGLES"
      by (simp add: well_formed_def say_def)
    from print_status_eq [OF this] that show ?thesis
      by (simp add: playback_path_finish_def) (simp add: say_def)
  qed
  show ?thesis
  proof (cases "i < length (recorded_path s)")
    case False
    with finish [OF assms] Playback_loop show ?thesis
      by auto
  next
    case True
    show ?thesis
    proof (cases "stop_event s")
      case stopped: True
      have "well_formed (say Playback_interrupted s)"
        using assms by simp
      from finish [OF this] True stopped Playback_loop show ?thesis
        by (auto simp: say_def)
    next
      case running: False
      from assms True have "map fst (recorded_path s ! i) = map fst NEUTRAL_ANGLES"
        by (simp add: well_formed_def list_all_length)
      with assms have "playback_write (recorded_path s ! i) s =
        Some (s\<lparr>hw_writes := hw_writes s @ recorded_path s ! i,
                current_angles := recorded_path s ! i\<rparr>)"
        by (intro playback_write_snapshot) (simp_all add: well_formed_def)
      moreover have "well_formed (s\<lparr>hw_writes := hw_writes s @ recorded_path s ! i,
                current_angles := recorded_path s ! i\<rparr>)"
        using assms \<open>map fst (recorded_path s ! i) = map fst NEUTRAL_ANGLES\<close>
        by (simp add: well_formed_def)
      ultimately show ?thesis
        using True running Playback_loop by simp
    qed
  qed
qed

lemma well_formed_return_to_neutral_slowly:
  assumes "well_formed s" "thread_ok (Home pc)"
  shows "\<exists>pc' s'. return_to_neutral_slowly pc s = Some (pc', s') \<and> well_formed s'
    \<and> threads s' = threads s \<and> (\<forall>pc''. pc' = Some pc'' \<longrightarrow> thread_ok (Home pc''))"
proof (cases pc)
  case Home_entry
  with assms show ?thesis
    by (simp add: say_def well_formed_def)
next
  case (Home_loop temp)
  with assms have keys: "map fst temp = map fst NEUTRAL_ANGLES"
    by simp
  have names: "set (map fst SERVO_PINS) \<subseteq> set (map fst NEUTRAL_ANGLES)"
    by (simp add: joint_names)
  from away_from_neutral_defined [OF names keys] obtain b where
    b: "away_from_neutral (map fst SERVO_PINS) temp = Some b" ..
  have finish: "\<exists>s'. return_to_neutral_slowly_finish t = Some s' \<and> well_formed s'
      \<and> threads s' = threads t" if "well_formed t" for t
  proof -
    let ?t = "if \<not> stop_event t then say Returned_to_neutral t else t"
    from that have "map fst (current_angles ?t) = map fst NEUTRAL_ANGLES"
      by (simp add: well_formed_def say_def)
    from print_status_eq [OF this] that show ?thesis
      by (simp add: return_to_neutral_slowly_finish_def) (simp add: say_def)
  qed
  show ?thesis
  proof (cases "b \<and> \<not> stop_event s")
    case True
    from well_formed_neutral_tick [OF assms(1) names keys] obtain temp' s' where
      "neutral_tick (map fst SERVO_PINS) temp s = Some (temp', s')" "well_formed s'"
      "map fst temp' = map fst NEUTRAL_ANGLES" "threads s' = threads s"
      by blast
    with True b Home_loop show ?thesis
      by simp
  next
    case False
    have "well_formed (say Return_interrupted s)"
      using assms(1) by simp
    from finish [OF this] finish [OF assms(1)] False b Home_loop show ?thesis
      by (auto simp: say_def)
  qed
qed

lemma well_formed_thread_quantum:
  assumes "well_formed s" "thread_ok t"
  shows "\<exists>t' s'. thread_quantum t s = Some (t', s') \<and> well_formed s' \<and> threads s' = threads s
    \<and> (\<forall>t''. t' = Some t'' \<longrightarrow> thread_ok t'')"
proof (cases t)
  case (Playback pc)
  from well_formed_playback_path [OF assms(1), of pc] Playback show ?thesis
    by auto
next
  case (Home pc)
  with assms(2) have "thread_ok (Home pc)"
    by simp
  from well_formed_return_to_neutral_slowly [OF assms(1) this] Home show ?thesis
    by auto
qed

lemma well_formed_step:
  assumes "well_formed s"
  shows "\<exists>s'. step a s = Some s' \<and> well_formed s'"
proof (cases a)
  case (Command command)
  from well_formed_process_command [OF assms, of command] obtain s1 where
    "process_command command s = Some s1" "well_formed s1"
    by blast
  with well_formed_print_status [of s1] assms Command show ?thesis
    by auto
next
  case Escape
  with assms show ?thesis
    by (simp add: well_formed_def)
next
  case (Run n)
  show ?thesis
  proof (cases "n < length (threads s)")
    case False
    with assms Run show ?thesis
      by simp
  next
    case True
    with assms have "thread_ok (threads s ! n)"
      by (simp add: well_formed_def list_all_length)
    from well_formed_thread_quantum [OF assms this] obtain t' s' where
      q: "thread_quantum (threads s ! n) s = Some (t', s')" "well_formed s'"
        "threads s' = threads s" "\<forall>t''. t' = Some t'' \<longrightarrow> thread_ok t''"
      by blast
    have "well_formed (s'\<lparr>threads := take n (threads s') @ drop (Suc n) (threads s')\<rparr>)"
      using q(2) by (auto simp: well_formed_def list_all_iff dest: in_set_takeD in_set_dropD)
    moreover have "well_formed (s'\<lparr>threads := (threads s')[n := t'']\<rparr>)" if "t' = Some t''" for t''
      using q(2,4) that
      by (auto simp: well_formed_def list_all_iff dest!: set_update_subset_insert [THEN subsetD])
    ultimately show ?thesis
      using True Run q(1) by (cases t') simp_all
  qed
qed

lemma reachable_well_formed: "reachable s \<Longrightarrow> well_formed s"
proof (induction rule: reachable.induct)
  case start
  show ?case by (rule well_formed_initial)
next
  case (next_state s a s')
  with well_formed_step [of s a] show ?case
    by auto
qed

text \<open>
  No reachable state raises: every action has a successor state, so \<open>None\<close> (the
  uncaught \<^verbatim>\<open>KeyError\<close>) never cuts a run of the model short.
\<close>

lemma reachable_never_raises:
  assumes "reachable s"
  shows "\<exists>s'. exec acts s = Some s' \<and> reachable s'"
  using assms
proof (induction acts arbitrary: s)
  case Nil
  then show ?case by simp
next
  case (Cons a acts)
  from well_formed_step [OF reachable_well_formed [OF Cons.prems], of a] obtain s1 where
    s1: "step a s = Some s1"
    by blast
  with Cons.prems have "reachable s1"
    by (rule reachable.next_state)
  from Cons.IH [OF this] s1 show ?case
    by simp
qed

end
